theory Spec2Isabelle
  imports Complex_Main "HOL-Library.List_Lexorder" "HOL-Library.Char_ord"
begin

section \<open>Python primitives used by all_snps.py\<close>

text \<open>
  The exceptions the script can raise are values of \<open>py_error\<close>; a function that can
  raise returns \<open>py_error + 'a\<close> with \<open>Inl\<close> for the exception.
\<close>

datatype py_error = IndexError | ZeroDivisionError | ValueError | TypeError | AttributeError

text \<open>\<open>str.upper()\<close> and \<open>str.lower()\<close> on one ASCII character.\<close>

definition py_upper :: "char \<Rightarrow> char" where
  "py_upper c =
     (if (97::nat) \<le> of_char c \<and> of_char c \<le> (122::nat) then char_of (of_char c - (32::nat)) else c)"

definition py_lower :: "char \<Rightarrow> char" where
  "py_lower c =
     (if (65::nat) \<le> of_char c \<and> of_char c \<le> (90::nat) then char_of (of_char c + (32::nat)) else c)"

text \<open>\<open>str(n)\<close> for a non-negative integer: its decimal numeral.\<close>

definition digit_char :: "nat \<Rightarrow> char" where
  "digit_char d = char_of (48 + d)"

function str_nat :: "nat \<Rightarrow> string" where
  "str_nat n = (if n < 10 then [digit_char n] else str_nat (n div 10) @ [digit_char (n mod 10)])"
  by pat_completeness auto
termination
  by (relation "measure id") auto

declare str_nat.simps [simp del]

text \<open>
  \<open>int(s)\<close> on a string. The strings that reach it in this script are the prefixes
  \<open>x[:-2]\<close> of SNP names, which are decimal numerals, or the empty string; the model
  accepts a non-empty string of decimal digits and raises \<open>ValueError\<close> (here \<open>None\<close>)
  otherwise. (Python also accepts a sign, surrounding white space and single underscores
  between digits; none of them is produced by \<open>str\<close> of an integer.)
\<close>

definition digit_val :: "char \<Rightarrow> nat option" where
  "digit_val c =
     (if (48::nat) \<le> of_char c \<and> of_char c \<le> (57::nat) then Some (of_char c - (48::nat)) else None)"

fun parse_digits :: "nat \<Rightarrow> string \<Rightarrow> nat option" where
  "parse_digits acc [] = Some acc"
| "parse_digits acc (c # cs) =
     (case digit_val c of None \<Rightarrow> None | Some d \<Rightarrow> parse_digits (10 * acc + d) cs)"

definition py_int :: "string \<Rightarrow> nat option" where
  "py_int s = (if s = [] then None else parse_digits 0 s)"

section \<open>SNP extraction: \<open>find_snps\<close>\<close>

text \<open>The f-string \<open>f"{index}{col[0].upper()}{col[1].upper()}"\<close>.\<close>

definition snp_name :: "nat \<Rightarrow> char \<Rightarrow> char \<Rightarrow> string" where
  "snp_name index r m = str_nat index @ [py_upper r, py_upper m]"

text \<open>
  The loop \<open>for i in range(len(ref))\<close> of \<open>find_snps\<close>, with its two variables \<open>index\<close>
  and \<open>snps\<close>. The columns still to visit are the remaining characters of \<open>ref\<close> and
  \<open>member\<close>; \<open>member[i]\<close> beyond the end of \<open>member\<close> raises \<open>IndexError\<close>, and
  characters of \<open>member\<close> beyond the length of \<open>ref\<close> are never read.
  \<open>len(set(col)) > 1\<close> says that the two characters of the column differ.
\<close>

fun find_snps_loop :: "string \<Rightarrow> string \<Rightarrow> nat \<Rightarrow> string list \<Rightarrow> py_error + string list" where
  "find_snps_loop [] member index snps = Inr snps"
| "find_snps_loop (r # ref) [] index snps = Inl IndexError"
| "find_snps_loop (r # ref) (m # member) index snps =
     (let index' = (if r \<noteq> CHR ''-'' then index + 1 else index);
          snps' = (if r \<noteq> m
                   then (if py_lower m \<notin> set ''agtc-'' then snps
                         else snps @ [snp_name index' r m])
                   else snps)
      in find_snps_loop ref member index' snps')"

definition find_snps :: "string \<Rightarrow> string \<Rightarrow> py_error + string list" where
  "find_snps ref member = find_snps_loop ref member 0 []"

text \<open>The sort key of \<open>snp_list_to_snp_string\<close>: \<open>int(x[:-2])\<close>, the position of an SNP.\<close>

definition snp_position :: "string \<Rightarrow> nat option" where
  "snp_position x = py_int (take (length x - 2) x)"


text \<open>The reference base of an SNP name, \<open>x[-2]\<close>.\<close>

definition snp_ref_base :: "string \<Rightarrow> char" where
  "snp_ref_base x = x ! (length x - 2)"


section \<open>N content: \<open>get_N_content\<close>\<close>

text \<open>
  Python's floats are modelled by exact rationals: \<open>(num_N*100)/len(seq)\<close> is the
  quotient itself, and dividing by zero raises \<open>ZeroDivisionError\<close>.
  \<open>str(seq).upper().count("N")\<close> counts the characters whose upper case is \<open>N\<close>.
\<close>

definition get_N_content :: "string \<Rightarrow> py_error + rat" where
  "get_N_content seq =
     (let num_N = count_list (map py_upper seq) (CHR ''N'')
      in if length seq = 0 then Inl ZeroDivisionError
         else Inr (of_nat (num_N * 100) / of_nat (length seq)))"

text \<open>
  Rounding to two decimal places, as the specification words it (used only to state the
  claim about \<open>get_N_content\<close>; the function itself never rounds).
\<close>

definition round_2_places :: "rat \<Rightarrow> rat" where
  "round_2_places q = of_int (round (q * 100)) / 100"

section \<open>Sequence records\<close>

text \<open>
  A Biopython sequence record with the three annotations the script attaches:
  \<open>annotations["pcent_N"]\<close>, \<open>annotations["snps"]\<close> and \<open>annotations["snp_string"]\<close>.
\<close>

record seq_record =
  rec_id :: string
  rec_seq :: string
  ann_pcent_N :: rat
  ann_snps :: "string list"
  ann_snp_string :: string

section \<open>SNP strings: \<open>snp_list_to_snp_string\<close>\<close>

text \<open>\<open>sep.join(xs)\<close> and \<open>s.split(sep)\<close> for a one-character separator.\<close>

fun py_join :: "string \<Rightarrow> string list \<Rightarrow> string" where
  "py_join sep [] = []"
| "py_join sep [x] = x"
| "py_join sep (x # y # ys) = x @ sep @ py_join sep (y # ys)"

fun py_split :: "char \<Rightarrow> string \<Rightarrow> string list" where
  "py_split sep [] = [[]]"
| "py_split sep (c # cs) =
     (if c = sep then [] # py_split sep cs
      else (case py_split sep cs of [] \<Rightarrow> [[c]] | w # ws \<Rightarrow> (c # w) # ws))"

text \<open>
  \<open>sorted(snp_list, key = lambda x : int(x[:-2]))\<close> computes the key of every element
  before it sorts, so one element whose key raises makes the call raise; \<open>sorted\<close> is
  stable, as \<open>sort_key\<close> is.
\<close>

definition snp_list_to_snp_string :: "string list \<Rightarrow> py_error + string" where
  "snp_list_to_snp_string snp_list =
     (if list_all (\<lambda>x. snp_position x \<noteq> None) snp_list
      then Inr (py_join '';'' (sort_key (\<lambda>x. the (snp_position x)) snp_list))
      else Inl ValueError)"

section \<open>Annotating the alignment\<close>

fun add_N_annotation :: "seq_record list \<Rightarrow> py_error + seq_record list" where
  "add_N_annotation [] = Inr []"
| "add_N_annotation (record # alignment) =
     (case get_N_content (rec_seq record) of
        Inl e \<Rightarrow> Inl e
      | Inr pcent_N \<Rightarrow>
          (case add_N_annotation alignment of
             Inl e \<Rightarrow> Inl e
           | Inr rest \<Rightarrow> Inr (record\<lparr>ann_pcent_N := pcent_N\<rparr> # rest)))"

fun add_snps_annotation :: "seq_record list \<Rightarrow> seq_record \<Rightarrow> py_error + seq_record list" where
  "add_snps_annotation [] reference = Inr []"
| "add_snps_annotation (record # alignment) reference =
     (case find_snps (rec_seq reference) (rec_seq record) of
        Inl e \<Rightarrow> Inl e
      | Inr snps \<Rightarrow>
          (case snp_list_to_snp_string snps of
             Inl e \<Rightarrow> Inl e
           | Inr snp_string \<Rightarrow>
               (case add_snps_annotation alignment reference of
                  Inl e \<Rightarrow> Inl e
                | Inr rest \<Rightarrow>
                    Inr (record\<lparr>ann_snps := snps, ann_snp_string := snp_string\<rparr> # rest))))"

text \<open>
  What \<open>add_snps_annotation\<close> leaves on a record: its SNP list is the one \<open>find_snps\<close>
  computes against the reference sequence, and its SNP string is made from that list.
\<close>

definition snps_annotated :: "string \<Rightarrow> seq_record \<Rightarrow> bool" where
  "snps_annotated ref record \<longleftrightarrow>
     find_snps ref (rec_seq record) = Inr (ann_snps record) \<and>
     snp_list_to_snp_string (ann_snps record) = Inr (ann_snp_string record)"

section \<open>Dictionaries of lists\<close>

text \<open>
  A \<open>collections.defaultdict(list)\<close> is an association list in insertion order (the
  order in which Python iterates over a dictionary); \<open>d[k].append(v)\<close> is \<open>dd_append\<close>
  and reading \<open>d[k]\<close> is \<open>dd_get\<close>.
\<close>

fun dd_append :: "'k \<Rightarrow> 'v \<Rightarrow> ('k \<times> 'v list) list \<Rightarrow> ('k \<times> 'v list) list" where
  "dd_append k v [] = [(k, [v])]"
| "dd_append k v ((k', vs) # d) =
     (if k = k' then (k', vs @ [v]) # d else (k', vs) # dd_append k v d)"

definition dd_get :: "('k \<times> 'v list) list \<Rightarrow> 'k \<Rightarrow> 'v list" where
  "dd_get d k = (case map_of d k of None \<Rightarrow> [] | Some vs \<Rightarrow> vs)"

section \<open>Grouping by lineage: \<open>get_lineage_dict\<close>\<close>

definition reference_id :: string where
  "reference_id = ''Wuhan/WH04/2020''"

text \<open>
  The lineage file is taken as the list of its lines, each already split at the comma
  into \<open>(tokens[0], tokens[1])\<close>; a later line overwrites an earlier one with the same
  identifier. The result maps each lineage, in order of first appearance, to its records
  sorted by N content (Python's \<open>sorted\<close> is stable).
\<close>

definition read_lineage_file :: "(string \<times> string) list \<Rightarrow> (string \<rightharpoonup> string)" where
  "read_lineage_file lines = fold (\<lambda>tokens d. d(fst tokens \<mapsto> snd tokens)) lines Map.empty"

definition get_lineage_dict ::
  "seq_record list \<Rightarrow> (string \<times> string) list \<Rightarrow> (string \<times> seq_record list) list" where
  "get_lineage_dict alignment lineage_file =
     (let lineages_dict = read_lineage_file lineage_file;
          lineages_records =
            fold (\<lambda>record d.
                    if rec_id record \<noteq> reference_id
                    then (case lineages_dict (rec_id record) of
                            Some lineage \<Rightarrow> dd_append lineage record d
                          | None \<Rightarrow> d)
                    else d)
                 alignment []
      in map (\<lambda>(lineage, records). (lineage, sort_key ann_pcent_N records)) lineages_records)"

section \<open>Classifying the SNPs of a lineage\<close>

text \<open>
  The first loop of the body of \<open>for lineage in sorted(lineages_dict)\<close>: every record of
  the lineage adds its identifier to \<open>snp_counter[i]\<close> for each \<open>i\<close> of its SNP list, and
  the pair of its identifier and N content to \<open>lineage_snps[snp_string]\<close>.
\<close>

definition count_record ::
  "seq_record \<Rightarrow> (string \<times> (string \<times> rat) list) list \<times> (string \<times> string list) list
     \<Rightarrow> (string \<times> (string \<times> rat) list) list \<times> (string \<times> string list) list" where
  "count_record record tables =
     (let snp_counter = fold (\<lambda>i d. dd_append i (rec_id record) d) (ann_snps record) (snd tables);
          lineage_snps =
            dd_append (ann_snp_string record) (rec_id record, ann_pcent_N record) (fst tables)
      in (lineage_snps, snp_counter))"

definition lineage_tables ::
  "seq_record list \<Rightarrow> (string \<times> (string \<times> rat) list) list \<times> (string \<times> string list) list" where
  "lineage_tables members = fold count_record members ([], [])"

fun get_singleton_snps ::
  "string \<Rightarrow> (string \<times> string list) list \<Rightarrow> (string \<times> string \<times> string) list" where
  "get_singleton_snps lineage [] = []"
| "get_singleton_snps lineage ((snp, ids) # snp_counter) =
     (if length ids = 1 then (lineage, snp, ids ! 0) # get_singleton_snps lineage snp_counter
      else get_singleton_snps lineage snp_counter)"

text \<open>
  The identifiers under which an SNP is counted in a lineage: one for every occurrence of
  the SNP in the SNP list of a member, in the order of the members.
\<close>

definition carriers :: "seq_record list \<Rightarrow> string \<Rightarrow> string list" where
  "carriers members snp =
     concat (map (\<lambda>r. map (\<lambda>s. rec_id r) (filter (\<lambda>s. s = snp) (ann_snps r))) members)"

definition get_inclusion_pcent ::
  "string \<Rightarrow> (string \<times> string list) list \<Rightarrow> nat \<Rightarrow> py_error + rat" where
  "get_inclusion_pcent snp snp_counter total_in_lineage =
     (let num_taxa_with_snp = length (dd_get snp_counter snp)
      in if total_in_lineage = 0 then Inl ZeroDivisionError
         else Inr (of_nat (100 * num_taxa_with_snp) / of_nat total_in_lineage))"

text \<open>
  The loop \<open>for snp in snp_counter\<close> of \<open>get_represented_and_defining_snps\<close>, over the
  keys still to visit, with the lists \<open>defining\<close> and \<open>flagged\<close> built so far. The
  members of the lineage stand for \<open>lineages_dict[lineage]\<close>.
\<close>

fun classify_loop ::
  "(string \<times> string \<times> string) list \<Rightarrow> (string \<times> string list) list \<Rightarrow> nat \<Rightarrow> rat \<Rightarrow> rat
     \<Rightarrow> string list \<Rightarrow> string list \<Rightarrow> string list \<Rightarrow> py_error + (string list \<times> string list)" where
  "classify_loop singletons snp_counter total_in_lineage defining_cut_off represent_cut_off
     [] defining flagged = Inr (defining, flagged)"
| "classify_loop singletons snp_counter total_in_lineage defining_cut_off represent_cut_off
     (snp # keys) defining flagged =
     (let singleton = list_ex (\<lambda>s. snp = fst (snd s)) singletons
      in if \<not> singleton
         then (case get_inclusion_pcent snp snp_counter total_in_lineage of
                 Inl e \<Rightarrow> Inl e
               | Inr inclusion_pcent \<Rightarrow>
                   classify_loop singletons snp_counter total_in_lineage
                     defining_cut_off represent_cut_off keys
                     (if inclusion_pcent > defining_cut_off then defining @ [snp] else defining)
                     (if inclusion_pcent > represent_cut_off then flagged @ [snp] else flagged))
         else classify_loop singletons snp_counter total_in_lineage
                defining_cut_off represent_cut_off keys defining flagged)"

definition get_represented_and_defining_snps ::
  "(string \<times> string \<times> string) list \<Rightarrow> (string \<times> string list) list \<Rightarrow> seq_record list
     \<Rightarrow> rat \<Rightarrow> rat \<Rightarrow> py_error + (string list \<times> string list)" where
  "get_represented_and_defining_snps singletons snp_counter members
     defining_cut_off represent_cut_off =
     classify_loop singletons snp_counter (length members) defining_cut_off represent_cut_off
       (map fst snp_counter) [] []"

section \<open>Choosing representatives\<close>

definition get_ids_in_list_of_records :: "seq_record list \<Rightarrow> string list" where
  "get_ids_in_list_of_records records = map rec_id records"

text \<open>\<open>int(x)\<close> of a float truncates towards zero.\<close>

definition py_int_of_float :: "rat \<Rightarrow> int" where
  "py_int_of_float q = (if 0 \<le> q then \<lfloor>q\<rfloor> else \<lceil>q\<rceil>)"

text \<open>
  The loops of \<open>get_representative_taxa\<close>, from the innermost. The state is the pair of
  the lists \<open>represented\<close> and \<open>taxa\<close>.
  \<^item> \<open>note_record\<close>: \<open>for lowest_N_snp in snps_in_lowest_N\<close>;
  \<^item> \<open>scan_records\<close>: \<open>for record in lineages_dict[lineage]\<close>;
  \<^item> \<open>scan_snp\<close>: the body of \<open>for snp in snps\<close>;
  \<^item> \<open>taxa_loop\<close>: \<open>for snp_set in lineage_snps\<close>, where \<open>records_sorted_by_N[0]\<close>
    raises \<open>IndexError\<close> on an empty list.
\<close>

definition note_record ::
  "string \<Rightarrow> seq_record \<Rightarrow> string list \<times> seq_record list \<Rightarrow> string list \<times> seq_record list" where
  "note_record snp record state =
     fold (\<lambda>lowest_N_snp (represented, taxa).
             (represented @ [snp],
              if rec_id record \<notin> set (get_ids_in_list_of_records taxa)
              then taxa @ [record] else taxa))
          (ann_snps record) state"

definition scan_records ::
  "string \<Rightarrow> string \<Rightarrow> seq_record list \<Rightarrow> string list \<times> seq_record list
     \<Rightarrow> string list \<times> seq_record list" where
  "scan_records snp lowest_N members state =
     fold (\<lambda>record st. if rec_id record = lowest_N then note_record snp record st else st)
          members state"

definition scan_snp ::
  "string \<Rightarrow> seq_record list \<Rightarrow> string list \<Rightarrow> string
     \<Rightarrow> string list \<times> seq_record list \<Rightarrow> string list \<times> seq_record list" where
  "scan_snp lowest_N members flagged snp state =
     (if snp \<in> set flagged \<and> snp \<notin> set (fst state)
      then scan_records snp lowest_N members (fst state @ [snp], snd state)
      else state)"

fun taxa_loop ::
  "(string \<times> (string \<times> rat) list) list \<Rightarrow> seq_record list \<Rightarrow> string list
     \<Rightarrow> string list \<times> seq_record list \<Rightarrow> py_error + (string list \<times> seq_record list)" where
  "taxa_loop [] members flagged state = Inr state"
| "taxa_loop ((snp_set, records) # lineage_snps) members flagged state =
     (case sort_key (\<lambda>x. py_int_of_float (snd x)) records of
        [] \<Rightarrow> Inl IndexError
      | lowest # _ \<Rightarrow>
          taxa_loop lineage_snps members flagged
            (fold (scan_snp (fst lowest) members flagged) (py_split (CHR '';'') snp_set) state))"

definition get_representative_taxa ::
  "(string \<times> (string \<times> rat) list) list \<Rightarrow> seq_record list \<Rightarrow> string list
     \<Rightarrow> py_error + seq_record list" where
  "get_representative_taxa lineage_snps members flagged =
     (case taxa_loop lineage_snps members flagged ([], []) of
        Inl e \<Rightarrow> Inl e
      | Inr state \<Rightarrow> Inr (snd state))"

text \<open>
  \<open>pad_taxa_to_5\<close>: \<open>pad_step\<close> is the body of its loop
  \<open>for record in lineages_dict[lineage]\<close>, which runs when \<open>pre_len < 3\<close>.
\<close>

definition pad_step :: "seq_record \<Rightarrow> seq_record list \<Rightarrow> seq_record list" where
  "pad_step record taxa =
     (if length taxa < 3
      then (if rec_id record \<notin> set (get_ids_in_list_of_records taxa)
            then taxa @ [record] else taxa)
      else taxa)"

definition pad_taxa_to_5 :: "seq_record list \<Rightarrow> seq_record list \<Rightarrow> seq_record list" where
  "pad_taxa_to_5 taxa members =
     (let pre_len = length taxa
      in if pre_len < 3 then fold pad_step members taxa else taxa)"

text \<open>
  The member of a signature group with the smallest N content, the earlier member winning
  a tie, as the specification words it (to be compared with what \<open>taxa_loop\<close> picks).
\<close>

fun smallest_N :: "(string \<times> rat) list \<Rightarrow> (string \<times> rat) option" where
  "smallest_N [] = None"
| "smallest_N (x # xs) =
     (case smallest_N xs of
        None \<Rightarrow> Some x
      | Some y \<Rightarrow> if snd x \<le> snd y then Some x else Some y)"

section \<open>One lineage, and the whole run\<close>

text \<open>
  \<open>list(set.intersection(*[set(x.split(";")) for x in lineage_snps]))\<close>: with no argument
  \<open>set.intersection\<close> raises \<open>TypeError\<close>. Python leaves the order in which a set is
  listed open; the model lists the elements in the order of the first signature, and the
  statements below are about the set of elements only.
\<close>

definition signature_intersection :: "string list \<Rightarrow> py_error + string list" where
  "signature_intersection signatures =
     (case signatures of
        [] \<Rightarrow> Inl TypeError
      | x # xs \<Rightarrow>
          Inr (filter (\<lambda>snp. list_all (\<lambda>y. snp \<in> set (py_split (CHR '';'') y)) xs)
                 (remdups (py_split (CHR '';'') x))))"

text \<open>
  The body of \<open>for lineage in sorted(lineages_dict)\<close> in \<open>get_all_snps\<close>. It returns the
  singletons to mask, the rows written to the representatives file and the row of
  defining SNPs. (The script has written the representative rows to its output file
  before the defining SNPs are computed; an exception after that point ends the run.)
\<close>

definition process_lineage ::
  "string \<Rightarrow> seq_record list \<Rightarrow> rat \<Rightarrow> rat
     \<Rightarrow> py_error + ((string \<times> string \<times> string) list \<times> (string \<times> string) list \<times> (string \<times> string))" where
  "process_lineage lineage members defining_cut_off represent_cut_off =
     (let lineage_snps = fst (lineage_tables members);
          snp_counter = snd (lineage_tables members);
          singletons = get_singleton_snps lineage snp_counter
      in case get_represented_and_defining_snps singletons snp_counter members
                defining_cut_off represent_cut_off of
           Inl e \<Rightarrow> Inl e
         | Inr (defining, flagged) \<Rightarrow>
             (case get_representative_taxa lineage_snps members flagged of
                Inl e \<Rightarrow> Inl e
              | Inr taxa \<Rightarrow>
                  (let taxa' = pad_taxa_to_5 taxa members;
                       rows = map (\<lambda>record. (lineage, rec_id record)) taxa'
                   in case signature_intersection (map fst lineage_snps) of
                        Inl e \<Rightarrow> Inl e
                      | Inr common \<Rightarrow>
                          (let defining_snps = (if common = [] then defining else common)
                           in case snp_list_to_snp_string defining_snps of
                                Inl e \<Rightarrow> Inl e
                              | Inr lineage_str \<Rightarrow>
                                  Inr (singletons, rows, (lineage, lineage_str))))))"

text \<open>
  \<open>get_all_snps\<close> on an alignment already read into records: the reference is the first
  record with the reference identifier (\<open>get_reference\<close> returns \<open>None\<close> when there is
  none, and \<open>reference.id\<close> then raises \<open>AttributeError\<close>); the lineages are processed in
  the order of their sorted names, and the three tables accumulate.
\<close>

definition get_reference :: "seq_record list \<Rightarrow> seq_record option" where
  "get_reference alignment = find (\<lambda>record. rec_id record = reference_id) alignment"

fun lineages_loop ::
  "string list \<Rightarrow> (string \<times> seq_record list) list \<Rightarrow> rat \<Rightarrow> rat
     \<Rightarrow> (string \<times> string \<times> string) list \<times> (string \<times> string) list \<times> (string \<times> string) list
     \<Rightarrow> py_error + ((string \<times> string \<times> string) list \<times> (string \<times> string) list \<times> (string \<times> string) list)" where
  "lineages_loop [] lineages_dict defining_cut_off represent_cut_off tables = Inr tables"
| "lineages_loop (lineage # names) lineages_dict defining_cut_off represent_cut_off
     (to_mask, outfile, lineage_defining_snps) =
     (case process_lineage lineage (dd_get lineages_dict lineage)
             defining_cut_off represent_cut_off of
        Inl e \<Rightarrow> Inl e
      | Inr (singletons, rows, defining_row) \<Rightarrow>
          lineages_loop names lineages_dict defining_cut_off represent_cut_off
            (to_mask @ singletons, outfile @ rows, lineage_defining_snps @ [defining_row]))"

definition get_all_snps ::
  "seq_record list \<Rightarrow> (string \<times> string) list \<Rightarrow> rat \<Rightarrow> rat
     \<Rightarrow> py_error + ((string \<times> string \<times> string) list \<times> (string \<times> string) list \<times> (string \<times> string) list)" where
  "get_all_snps aln lineage_file defining_cut_off represent_cut_off =
     (case get_reference aln of
        None \<Rightarrow> Inl AttributeError
      | Some reference \<Rightarrow>
          (case add_N_annotation aln of
             Inl e \<Rightarrow> Inl e
           | Inr aln1 \<Rightarrow>
               (case add_snps_annotation aln1 reference of
                  Inl e \<Rightarrow> Inl e
                | Inr aln2 \<Rightarrow>
                    (let lineages_dict = get_lineage_dict aln2 lineage_file
                     in lineages_loop (sort (map fst lineages_dict)) lineages_dict
                          defining_cut_off represent_cut_off ([], [], [])))))"

text \<open>A record as read from the alignment file, before any annotation.\<close>

definition read_record :: "string \<Rightarrow> string \<Rightarrow> seq_record" where
  "read_record name residues =
     \<lparr>rec_id = name, rec_seq = residues, ann_pcent_N = 0, ann_snps = [], ann_snp_string = []\<rparr>"

section \<open>Invariant of the extraction loop\<close>

text \<open>
  The loop invariant: every event found so far has a position of at most \<open>index\<close>, and
  the events found at reference columns that are not gaps have distinct positions.
\<close>

definition positions_ok :: "nat \<Rightarrow> string list \<Rightarrow> bool" where
  "positions_ok index snps \<longleftrightarrow>
     (\<forall>x \<in> set snps. \<exists>i \<le> index. snp_position x = Some i) \<and>
     distinct (map snp_position (filter (\<lambda>x. snp_ref_base x \<noteq> CHR ''-'') snps))"

section \<open>Decimal numerals and SNP names\<close>

lemma digit_val_digit_char: "d < 10 \<Longrightarrow> digit_val (digit_char d) = Some d"
  by (simp add: digit_val_def digit_char_def)

lemma parse_digits_append:
  "parse_digits acc (xs @ ys) =
     (case parse_digits acc xs of None \<Rightarrow> None | Some a \<Rightarrow> parse_digits a ys)"
  by (induction xs arbitrary: acc) (auto split: option.splits)

lemma str_nat_not_Nil: "str_nat n \<noteq> []"
  by (subst str_nat.simps) simp

lemma parse_digits_str_nat: "parse_digits 0 (str_nat n) = Some n"
proof (induction n rule: str_nat.induct)
  case (1 n)
  show ?case
  proof (cases "n < 10")
    case True
    then show ?thesis
      by (subst str_nat.simps) (simp add: digit_val_digit_char)
  next
    case False
    with 1 have "parse_digits 0 (str_nat (n div 10)) = Some (n div 10)" by simp
    with False show ?thesis
      by (subst str_nat.simps) (simp add: parse_digits_append digit_val_digit_char)
  qed
qed

lemma py_int_str_nat: "py_int (str_nat n) = Some n"
  by (simp add: py_int_def str_nat_not_Nil parse_digits_str_nat)

lemma snp_position_snp_name: "snp_position (snp_name i r m) = Some i"
  by (simp add: snp_position_def snp_name_def py_int_str_nat)

lemma snp_ref_base_snp_name: "snp_ref_base (snp_name i r m) = py_upper r"
  by (simp add: snp_ref_base_def snp_name_def nth_append)

lemma of_char_py_upper:
  "(of_char (py_upper r) :: nat) =
     (if 97 \<le> (of_char r :: nat) \<and> (of_char r :: nat) \<le> 122 then of_char r - 32 else of_char r)"
  by (auto simp: py_upper_def)

lemma py_upper_gap: "py_upper r = CHR ''-'' \<longleftrightarrow> r = CHR ''-''"
proof
  assume "py_upper r = CHR ''-''"
  then have "(of_char (py_upper r) :: nat) = of_char (CHR ''-'')" by simp
  then have "(of_char r :: nat) = 45"
    by (simp add: of_char_py_upper split: if_splits)
  then have "(of_char r :: nat) = of_char (CHR ''-'')" by simp
  then show "r = CHR ''-''" by (simp only: of_char_eq_iff)
next
  assume "r = CHR ''-''"
  then show "py_upper r = CHR ''-''" by (simp add: py_upper_def)
qed

section \<open>Positions of the events of one comparison\<close>

lemma positions_ok_mono: "positions_ok i snps \<Longrightarrow> i \<le> j \<Longrightarrow> positions_ok j snps"
  unfolding positions_ok_def by (meson le_trans)

lemma positions_ok_gap:
  "positions_ok i snps \<Longrightarrow> positions_ok i (snps @ [snp_name i (CHR ''-'') m])"
  unfolding positions_ok_def
  by (auto simp: snp_position_snp_name snp_ref_base_snp_name py_upper_gap)

lemma positions_ok_base:
  assumes "positions_ok i snps"
  shows "positions_ok (Suc i) (snps @ [snp_name (Suc i) r m])"
proof -
  have "Some (Suc i) \<notin> snp_position ` set snps"
    using assms unfolding positions_ok_def by fastforce
  then have "Some (Suc i) \<notin> snp_position ` {x \<in> set snps. snp_ref_base x \<noteq> CHR ''-''}"
    by blast
  moreover have "\<forall>x \<in> set snps. \<exists>j \<le> Suc i. snp_position x = Some j"
    using assms unfolding positions_ok_def by (meson le_SucI)
  ultimately show ?thesis
    using assms unfolding positions_ok_def
    by (auto simp: snp_position_snp_name)
qed

lemma find_snps_loop_positions:
  "length ref = length member \<Longrightarrow> positions_ok index snps \<Longrightarrow>
   \<exists>out k. find_snps_loop ref member index snps = Inr out \<and> positions_ok k out"
proof (induction ref member index snps rule: find_snps_loop.induct)
  case (1 member index snps)
  then show ?case by auto
next
  case (2 r ref index snps)
  then show ?case by simp
next
  case (3 r ref m member index snps)
  let ?index' = "if r \<noteq> CHR ''-'' then index + 1 else index"
  let ?snps' = "if r \<noteq> m
                   then (if py_lower m \<notin> set ''agtc-'' then snps
                         else snps @ [snp_name ?index' r m])
                   else snps"
  have ok: "positions_ok ?index' ?snps'"
    using "3.prems"(2) positions_ok_gap [of index snps m] positions_ok_base [of index snps r m]
      positions_ok_mono [of index snps "Suc index"]
    by auto
  have len: "length ref = length member" using "3.prems"(1) by simp
  from "3.IH" [OF refl refl len ok] show ?case
    by (simp add: Let_def)
qed

lemma find_snps_loop_no_gap:
  "CHR ''-'' \<notin> set ref \<Longrightarrow> \<forall>x \<in> set snps. snp_ref_base x \<noteq> CHR ''-'' \<Longrightarrow>
   find_snps_loop ref member index snps = Inr out \<Longrightarrow>
   \<forall>x \<in> set out. snp_ref_base x \<noteq> CHR ''-''"
proof (induction ref member index snps rule: find_snps_loop.induct)
  case (1 member index snps)
  then show ?case by simp
next
  case (2 r ref index snps)
  then show ?case by simp
next
  case (3 r ref m member index snps)
  let ?index' = "if r \<noteq> CHR ''-'' then index + 1 else index"
  let ?snps' = "if r \<noteq> m
                   then (if py_lower m \<notin> set ''agtc-'' then snps
                         else snps @ [snp_name ?index' r m])
                   else snps"
  have r: "r \<noteq> CHR ''-''" and ref: "CHR ''-'' \<notin> set ref"
    using "3.prems"(1) by auto
  have inv: "\<forall>x \<in> set ?snps'. snp_ref_base x \<noteq> CHR ''-''"
    using "3.prems"(2) r by (auto simp: snp_ref_base_snp_name py_upper_gap)
  have run: "find_snps_loop ref member ?index' ?snps' = Inr out"
    using "3.prems"(3) by (simp add: Let_def)
  from "3.IH" [OF refl refl ref inv run] show ?case .
qed

text \<open>
  C4 (as stated): within one comparison of sequences of equal length, no two events of
  \<open>find_snps\<close> have the same position. This fails where the reference has a gap: the
  counter \<open>index\<close> does not advance there, so an event at a gap column has the position
  of the column before it. Reference \<open>A-\<close> against member \<open>CG\<close> gives the events
  \<open>1AC\<close> and \<open>1-G\<close>, both at position 1.
\<close>

theorem find_snps_shared_position_counterexample:
  "length ''A-'' = length ''CG'' \<and>
   find_snps ''A-'' ''CG'' = Inr [''1AC'', ''1-G''] \<and>
   snp_position ''1AC'' = snp_position ''1-G'' \<and>
   \<not> distinct (map snp_position [''1AC'', ''1-G''])"
  by code_simp

text \<open>
  C4 (amended): for sequences of equal length \<open>find_snps\<close> returns a list in which the
  events found at reference columns that are not gaps have pairwise distinct positions;
  hence, when the reference has no gap, no two events have the same position.
\<close>

theorem find_snps_positions_distinct:
  assumes "length ref = length member"
  shows "\<exists>snps. find_snps ref member = Inr snps \<and>
           distinct (map snp_position (filter (\<lambda>x. snp_ref_base x \<noteq> CHR ''-'') snps)) \<and>
           (CHR ''-'' \<notin> set ref \<longrightarrow> distinct (map snp_position snps))"
proof -
  have "positions_ok 0 []" by (simp add: positions_ok_def)
  from find_snps_loop_positions [OF assms this]
  obtain out k where out: "find_snps_loop ref member 0 [] = Inr out" and ok: "positions_ok k out"
    by blast
  have d: "distinct (map snp_position (filter (\<lambda>x. snp_ref_base x \<noteq> CHR ''-'') out))"
    using ok by (simp add: positions_ok_def)
  have "distinct (map snp_position out)" if "CHR ''-'' \<notin> set ref"
  proof -
    from find_snps_loop_no_gap [OF that _ out]
    have "\<forall>x \<in> set out. snp_ref_base x \<noteq> CHR ''-''" by simp
    then have "filter (\<lambda>x. snp_ref_base x \<noteq> CHR ''-'') out = out" by simp
    with d show ?thesis by simp
  qed
  with out d show ?thesis by (auto simp: find_snps_def)
qed

theorem find_snps_positions_distinct_witness:
  "length ''ACGT'' = length ''ATGA'' \<and> CHR ''-'' \<notin> set ''ACGT'' \<and>
   (\<exists>snps. find_snps ''ACGT'' ''ATGA'' = Inr snps \<and>
           distinct (map snp_position (filter (\<lambda>x. snp_ref_base x \<noteq> CHR ''-'') snps)) \<and>
           (CHR ''-'' \<notin> set ''ACGT'' \<longrightarrow> distinct (map snp_position snps)))"
  using find_snps_positions_distinct [of "''ACGT''" "''ATGA''"] by simp


section \<open>N content\<close>

lemma py_upper_N: "py_upper c = CHR ''N'' \<longleftrightarrow> c = CHR ''N'' \<or> c = CHR ''n''"
proof
  assume "py_upper c = CHR ''N''"
  then have "(of_char (py_upper c) :: nat) = of_char (CHR ''N'')" by simp
  then have "(of_char c :: nat) = 78 \<or> (of_char c :: nat) = 110"
    by (simp add: of_char_py_upper split: if_splits)
  then have "(of_char c :: nat) = of_char (CHR ''N'') \<or> (of_char c :: nat) = of_char (CHR ''n'')"
    by simp
  then show "c = CHR ''N'' \<or> c = CHR ''n''" by (simp only: of_char_eq_iff)
next
  have "py_upper (CHR ''N'') = CHR ''N''" and "py_upper (CHR ''n'') = CHR ''N''"
    by code_simp+
  moreover assume "c = CHR ''N'' \<or> c = CHR ''n''"
  ultimately show "py_upper c = CHR ''N''" by auto
qed

lemma count_list_map_filter: "count_list (map f xs) y = length (filter (\<lambda>x. f x = y) xs)"
  by (induction xs) auto

text \<open>
  C8 (as stated): \<open>get_N_content\<close> returns the percentage of \<open>N\<close> rounded to two decimal
  places. The function returns the quotient as it is: for \<open>NAA\<close> it returns one hundred
  thirds, whose rounding to two places is 33.33.
\<close>

theorem get_N_content_not_rounded_counterexample:
  "get_N_content ''NAA'' = Inr (100 / 3) \<and>
   round_2_places (100 / 3) = 3333 / 100 \<and>
   get_N_content ''NAA'' \<noteq> Inr (round_2_places (100 / 3))"
  by code_simp

text \<open>
  C8 (amended): for every non-empty sequence \<open>get_N_content\<close> returns one hundred times
  the number of residues equal to \<open>N\<close> or \<open>n\<close>, divided by the length of the sequence,
  with no rounding.
\<close>

theorem get_N_content_exact:
  assumes "seq \<noteq> []"
  shows "get_N_content seq =
           Inr (of_nat (100 * length (filter (\<lambda>c. c = CHR ''N'' \<or> c = CHR ''n'') seq))
                / of_nat (length seq))"
  using assms
  by (simp add: get_N_content_def count_list_map_filter py_upper_N mult.commute)

theorem get_N_content_exact_witness:
  "''AnNT'' \<noteq> [] \<and> get_N_content ''AnNT'' = Inr 50"
  using get_N_content_exact [of "''AnNT''"] by simp

section \<open>Classification by the cut-offs\<close>

lemma classify_loop_total:
  assumes "0 < n"
  shows "classify_loop singletons snp_counter n dco rco keys defining flagged =
     Inr (defining @ filter (\<lambda>snp. \<not> list_ex (\<lambda>s. snp = fst (snd s)) singletons \<and>
                              of_nat (100 * length (dd_get snp_counter snp)) / of_nat n > dco) keys,
          flagged @ filter (\<lambda>snp. \<not> list_ex (\<lambda>s. snp = fst (snd s)) singletons \<and>
                              of_nat (100 * length (dd_get snp_counter snp)) / of_nat n > rco) keys)"
  using assms
  by (induction keys arbitrary: defining flagged) (auto simp: get_inclusion_pcent_def Let_def)

text \<open>
  C7: for a fixed lineage (its members, its SNP counter and its singletons), raising the
  representative cut-off can only shrink the list of flagged SNPs: with
  \<open>cutoff_a < cutoff_b\<close>, both classifications return, and every SNP flagged under
  \<open>cutoff_b\<close> is flagged under \<open>cutoff_a\<close>.
\<close>

theorem representable_antitone_in_cutoff:
  assumes "cutoff_a < cutoff_b" and "members \<noteq> []"
  shows "\<exists>defining_a flagged_a defining_b flagged_b.
           get_represented_and_defining_snps singletons snp_counter members dco cutoff_a
             = Inr (defining_a, flagged_a) \<and>
           get_represented_and_defining_snps singletons snp_counter members dco cutoff_b
             = Inr (defining_b, flagged_b) \<and>
           set flagged_b \<subseteq> set flagged_a"
proof -
  have n: "0 < length members" using assms(2) by simp
  show ?thesis
    unfolding get_represented_and_defining_snps_def classify_loop_total [OF n]
    using assms(1) by auto
qed

theorem representable_antitone_in_cutoff_witness:
  "(10::rat) < 90 \<and> [read_record ''M1'' ''ACGA''] \<noteq> [] \<and>
   (\<exists>defining_a flagged_a defining_b flagged_b.
      get_represented_and_defining_snps [] [(''4TA'', [''M1'', ''M2''])]
        [read_record ''M1'' ''ACGA''] 90 10 = Inr (defining_a, flagged_a) \<and>
      get_represented_and_defining_snps [] [(''4TA'', [''M1'', ''M2''])]
        [read_record ''M1'' ''ACGA''] 90 90 = Inr (defining_b, flagged_b) \<and>
      set flagged_b \<subseteq> set flagged_a)"
  using representable_antitone_in_cutoff
    [of 10 90 "[read_record ''M1'' ''ACGA'']" "[]" "[(''4TA'', [''M1'', ''M2''])]" 90]
  by simp

text \<open>
  C9 (as stated): a run whose cut-offs violate
  \<open>0 \<le> representative cut-off \<le> defining cut-off \<le> 100\<close> aborts before it produces
  output. Nothing in the script looks at the cut-offs before they are compared with the
  inclusion percentages: with a defining cut-off of 10 and a representative cut-off of 90
  the run on the reference \<open>ACGT\<close> and three members of lineage \<open>X\<close> returns its three
  tables.
\<close>

theorem cutoffs_not_validated_counterexample:
  "\<not> ((0::rat) \<le> 90 \<and> (90::rat) \<le> 10 \<and> (10::rat) \<le> 100) \<and>
   get_all_snps
     [read_record reference_id ''ACGT'', read_record ''M1'' ''ACGA'',
      read_record ''M2'' ''ACGA'', read_record ''M3'' ''ATGT'']
     [(''M1'', ''X''), (''M2'', ''X''), (''M3'', ''X'')] 10 90
   = Inr ([(''X'', ''2CT'', ''M3'')],
          [(''X'', ''M1''), (''X'', ''M2''), (''X'', ''M3'')],
          [(''X'', ''4TA'')])"
  by code_simp

text \<open>
  C9 (amended): the cut-offs are not validated. For a lineage with at least one member
  and any two cut-off values, whatever their order and range,
  \<open>get_represented_and_defining_snps\<close> returns normally: \<open>defining\<close> holds the SNPs of the
  counter that are not singletons and whose inclusion percentage is strictly above the
  defining cut-off, \<open>flagged\<close> those strictly above the representative cut-off.
\<close>

theorem cutoffs_not_validated:
  assumes "members \<noteq> []"
  shows "get_represented_and_defining_snps singletons snp_counter members dco rco =
     Inr (filter (\<lambda>snp. \<not> list_ex (\<lambda>s. snp = fst (snd s)) singletons \<and>
                    of_nat (100 * length (dd_get snp_counter snp)) / of_nat (length members) > dco)
            (map fst snp_counter),
          filter (\<lambda>snp. \<not> list_ex (\<lambda>s. snp = fst (snd s)) singletons \<and>
                    of_nat (100 * length (dd_get snp_counter snp)) / of_nat (length members) > rco)
            (map fst snp_counter))"
proof -
  have n: "0 < length members" using assms by simp
  show ?thesis
    unfolding get_represented_and_defining_snps_def classify_loop_total [OF n] by simp
qed

theorem cutoffs_not_validated_witness:
  "[read_record ''M1'' ''ACGA''] \<noteq> [] \<and>
   get_represented_and_defining_snps [] [(''4TA'', [''M1'', ''M2''])]
     [read_record ''M1'' ''ACGA''] (-5) 200 = Inr ([''4TA''], [])"
  using cutoffs_not_validated
    [of "[read_record ''M1'' ''ACGA'']" "[]" "[(''4TA'', [''M1'', ''M2''])]" "-5" 200]
  by (simp add: dd_get_def)

section \<open>A lineage without SNPs\<close>

lemma fold_count_record_no_snps:
  assumes "\<forall>r \<in> set members. ann_snps r = [] \<and> ann_snp_string r = []"
  shows "fold count_record members ([([], g)], []) =
           ([([], g @ map (\<lambda>r. (rec_id r, ann_pcent_N r)) members)], [])"
  using assms
  by (induction members arbitrary: g) (auto simp: count_record_def)

lemma lineage_tables_no_snps:
  assumes "members \<noteq> []" and "\<forall>r \<in> set members. ann_snps r = [] \<and> ann_snp_string r = []"
  shows "lineage_tables members = ([([], map (\<lambda>r. (rec_id r, ann_pcent_N r)) members)], [])"
proof -
  obtain r rs where m: "members = r # rs" using assms(1) by (cases members) auto
  have "count_record r ([], []) = ([([], [(rec_id r, ann_pcent_N r)])], [])"
    using assms(2) m by (simp add: count_record_def)
  then show ?thesis
    using fold_count_record_no_snps [of rs "[(rec_id r, ann_pcent_N r)]"] assms(2) m
    by (simp add: lineage_tables_def)
qed

lemma taxa_loop_nothing_flagged:
  assumes "g \<noteq> []"
  shows "taxa_loop [([], g)] members [] ([], []) = Inr ([], [])"
proof -
  have "length (sort_key (\<lambda>x. py_int_of_float (snd x)) g) = length g" by simp
  with assms obtain lowest rest where "sort_key (\<lambda>x. py_int_of_float (snd x)) g = lowest # rest"
    by (cases "sort_key (\<lambda>x. py_int_of_float (snd x)) g") auto
  then show ?thesis by (simp add: scan_snp_def)
qed

text \<open>
  C10: when every member of a lineage has an empty SNP list (and so the empty SNP
  string), processing the lineage does not complete: the only signature is the empty
  string, its split is the list holding the empty string, which is therefore the
  intersection, and the sort key \<open>int(x[:-2])\<close> raises \<open>ValueError\<close> on it.
\<close>

theorem no_snps_lineage_raises:
  assumes "members \<noteq> []" and "\<forall>r \<in> set members. ann_snps r = [] \<and> ann_snp_string r = []"
  shows "process_lineage lineage members defining_cut_off represent_cut_off = Inl ValueError"
proof -
  let ?g = "map (\<lambda>r. (rec_id r, ann_pcent_N r)) members"
  have tables: "lineage_tables members = ([([], ?g)], [])"
    using lineage_tables_no_snps [OF assms] .
  have g: "?g \<noteq> []" using assms(1) by simp
  have classes: "get_represented_and_defining_snps [] [] members defining_cut_off represent_cut_off
                   = Inr ([], [])"
    by (simp add: get_represented_and_defining_snps_def)
  have taxa: "get_representative_taxa [([], ?g)] members [] = Inr []"
    unfolding get_representative_taxa_def taxa_loop_nothing_flagged [OF g] by simp
  have common: "signature_intersection [[]] = Inr [[]]"
    by (simp add: signature_intersection_def)
  have str: "snp_list_to_snp_string [[]] = Inl ValueError"
    by (simp add: snp_list_to_snp_string_def snp_position_def py_int_def)
  show ?thesis
    by (simp add: process_lineage_def tables classes taxa common str)
qed

theorem no_snps_lineage_raises_witness:
  "[read_record ''M1'' ''ACGT'', read_record ''M2'' ''ACNT''] \<noteq> [] \<and>
   ann_snps (read_record ''M1'' ''ACGT'') = [] \<and>
   ann_snp_string (read_record ''M1'' ''ACGT'') = [] \<and>
   ann_snps (read_record ''M2'' ''ACNT'') = [] \<and>
   ann_snp_string (read_record ''M2'' ''ACNT'') = [] \<and>
   process_lineage ''X'' [read_record ''M1'' ''ACGT'', read_record ''M2'' ''ACNT''] 90 10
     = Inl ValueError"
  using no_snps_lineage_raises
    [of "[read_record ''M1'' ''ACGT'', read_record ''M2'' ''ACNT'']" "''X''" 90 10]
  by (simp add: read_record_def)

section \<open>The SNP counter and the singletons\<close>

lemma dd_get_Nil: "dd_get [] k = []"
  by (simp add: dd_get_def)

lemma dd_get_dd_append:
  "dd_get (dd_append k v d) k' = (if k' = k then dd_get d k @ [v] else dd_get d k')"
  by (induction d) (auto simp: dd_get_def)

lemma map_fst_dd_append:
  "map fst (dd_append k v d) = (if k \<in> set (map fst d) then map fst d else map fst d @ [k])"
proof (induction d)
  case Nil
  then show ?case by simp
next
  case (Cons a d)
  obtain k' vs where a: "a = (k', vs)" by (cases a)
  show ?case
  proof (cases "k = k'")
    case True
    then show ?thesis by (simp add: a)
  next
    case False
    with Cons show ?thesis by (simp add: a)
  qed
qed

lemma keys_dd_append: "fst ` set (dd_append k v d) = insert k (fst ` set d)"
proof -
  have "set (map fst (dd_append k v d)) = insert k (set (map fst d))"
    unfolding map_fst_dd_append by auto
  then show ?thesis by simp
qed

lemma distinct_dd_append: "distinct (map fst d) \<Longrightarrow> distinct (map fst (dd_append k v d))"
  unfolding map_fst_dd_append by auto

lemma dd_get_fold_append:
  "dd_get (fold (\<lambda>i d. dd_append i x d) xs d) k = dd_get d k @ map (\<lambda>s. x) (filter (\<lambda>s. s = k) xs)"
  by (induction xs arbitrary: d) (auto simp: dd_get_dd_append)

lemma keys_fold_append:
  "fst ` set (fold (\<lambda>i d. dd_append i x d) xs d) = fst ` set d \<union> set xs"
  by (induction xs arbitrary: d) (auto simp: keys_dd_append)

lemma distinct_fold_append:
  "distinct (map fst d) \<Longrightarrow> distinct (map fst (fold (\<lambda>i d. dd_append i x d) xs d))"
  by (induction xs arbitrary: d) (auto simp: distinct_dd_append)

lemma snd_fold_count_record:
  "snd (fold count_record members tables) =
     fold (\<lambda>r c. fold (\<lambda>i d. dd_append i (rec_id r) d) (ann_snps r) c) members (snd tables)"
  by (induction members arbitrary: tables) (auto simp: count_record_def)

lemma fst_fold_count_record:
  "fst (fold count_record members tables) =
     fold (\<lambda>r l. dd_append (ann_snp_string r) (rec_id r, ann_pcent_N r) l) members (fst tables)"
  by (induction members arbitrary: tables) (auto simp: count_record_def)

lemma dd_get_counter_fold:
  "dd_get (fold (\<lambda>r c. fold (\<lambda>i d. dd_append i (rec_id r) d) (ann_snps r) c) members c) k =
     dd_get c k @ carriers members k"
  by (induction members arbitrary: c) (auto simp: dd_get_fold_append carriers_def)

lemma keys_counter_fold:
  "fst ` set (fold (\<lambda>r c. fold (\<lambda>i d. dd_append i (rec_id r) d) (ann_snps r) c) members c) =
     fst ` set c \<union> (\<Union>r \<in> set members. set (ann_snps r))"
  by (induction members arbitrary: c) (auto simp: keys_fold_append)

lemma distinct_counter_fold:
  "distinct (map fst c) \<Longrightarrow>
   distinct (map fst (fold (\<lambda>r c. fold (\<lambda>i d. dd_append i (rec_id r) d) (ann_snps r) c) members c))"
  by (induction members arbitrary: c) (auto simp: distinct_fold_append)

lemma dd_get_snp_counter: "dd_get (snd (lineage_tables members)) k = carriers members k"
  by (simp add: lineage_tables_def snd_fold_count_record dd_get_counter_fold dd_get_Nil)

lemma keys_snp_counter:
  "fst ` set (snd (lineage_tables members)) = (\<Union>r \<in> set members. set (ann_snps r))"
  by (simp add: lineage_tables_def snd_fold_count_record keys_counter_fold)

lemma distinct_snp_counter: "distinct (map fst (snd (lineage_tables members)))"
  by (simp add: lineage_tables_def snd_fold_count_record distinct_counter_fold)

lemma set_get_singleton_snps:
  "set (get_singleton_snps lineage d) =
     {(lineage, snp, ids ! 0) | snp ids. (snp, ids) \<in> set d \<and> length ids = 1}"
  by (induction d) (auto split: if_splits)

lemma in_dd_iff:
  assumes "distinct (map fst d)"
  shows "(k, vs) \<in> set d \<longleftrightarrow> k \<in> fst ` set d \<and> dd_get d k = vs"
proof -
  have "(k, vs) \<in> set d \<longleftrightarrow> map_of d k = Some vs" using assms by simp
  also have "\<dots> \<longleftrightarrow> k \<in> fst ` set d \<and> dd_get d k = vs"
  proof (cases "map_of d k")
    case None
    then have "k \<notin> fst ` set d" by (simp add: map_of_eq_None_iff)
    with None show ?thesis by simp
  next
    case (Some v)
    then have "k \<in> fst ` set d" by (metis map_of_eq_None_iff option.distinct(1))
    with Some show ?thesis by (simp add: dd_get_def)
  qed
  finally show ?thesis .
qed

lemma in_get_singleton_snps:
  assumes "distinct (map fst d)"
  shows "(l, snp, i) \<in> set (get_singleton_snps lineage d) \<longleftrightarrow>
           l = lineage \<and> snp \<in> fst ` set d \<and> dd_get d snp = [i]"
proof
  assume "(l, snp, i) \<in> set (get_singleton_snps lineage d)"
  then obtain ids where l: "l = lineage" and i: "i = ids ! 0"
    and ids: "(snp, ids) \<in> set d" and len: "length ids = 1"
    unfolding set_get_singleton_snps by blast
  from len i have "ids = [i]" by (cases ids) auto
  with ids l show "l = lineage \<and> snp \<in> fst ` set d \<and> dd_get d snp = [i]"
    using in_dd_iff [OF assms, of snp ids] by simp
next
  assume a: "l = lineage \<and> snp \<in> fst ` set d \<and> dd_get d snp = [i]"
  then have "(snp, [i]) \<in> set d" using in_dd_iff [OF assms, of snp "[i]"] by simp
  moreover have "i = [i] ! 0" and "length [i] = 1" by simp_all
  ultimately show "(l, snp, i) \<in> set (get_singleton_snps lineage d)"
    unfolding set_get_singleton_snps using a by blast
qed

lemma carriers_Nil_iff: "carriers members snp = [] \<longleftrightarrow> (\<forall>r \<in> set members. snp \<notin> set (ann_snps r))"
  by (auto simp: carriers_def filter_empty_conv)

lemma length_carriers_ge:
  "length (filter (\<lambda>r. snp \<in> set (ann_snps r)) members) \<le> length (carriers members snp)"
proof (induction members)
  case Nil
  then show ?case by (simp add: carriers_def)
next
  case (Cons r members)
  have "filter (\<lambda>s. s = snp) (ann_snps r) \<noteq> []" if "snp \<in> set (ann_snps r)"
    using that by (simp add: filter_empty_conv)
  then have "1 \<le> length (filter (\<lambda>s. s = snp) (ann_snps r))" if "snp \<in> set (ann_snps r)"
    using that by (simp add: Suc_le_eq)
  with Cons show ?case by (auto simp: carriers_def)
qed

lemma length_carriers_distinct:
  assumes "\<forall>r \<in> set members. distinct (ann_snps r)"
  shows "length (carriers members snp) = length (filter (\<lambda>r. snp \<in> set (ann_snps r)) members)"
  using assms
proof (induction members)
  case Nil
  then show ?case by (simp add: carriers_def)
next
  case (Cons r members)
  have "length (filter (\<lambda>s. s = snp) (ann_snps r)) = (if snp \<in> set (ann_snps r) then 1 else 0)"
    using Cons.prems by (simp add: distinct_length_filter)
  with Cons show ?case by (auto simp: carriers_def)
qed

text \<open>
  C3 (as stated): an SNP is classified singleton if and only if it is in the SNP list of
  exactly one member of the lineage. The counter holds one identifier for every
  occurrence, so an SNP that occurs twice in the list of its only carrier is counted
  twice: the reference \<open>A--\<close> against the member \<open>AGG\<close> gives the list \<open>1-G\<close>, \<open>1-G\<close>,
  and \<open>1-G\<close> is not masked although one member alone carries it.
\<close>

theorem singleton_counts_occurrences_counterexample:
  "find_snps ''A--'' ''AGG'' = Inr [''1-G'', ''1-G''] \<and>
   get_singleton_snps ''X'' (snd (lineage_tables
     [\<lparr>rec_id = ''M1'', rec_seq = ''AGG'', ann_pcent_N = 0,
       ann_snps = [''1-G'', ''1-G''], ann_snp_string = ''1-G;1-G''\<rparr>])) = [] \<and>
   get_all_snps [read_record reference_id ''A--'', read_record ''M1'' ''AGG'']
     [(''M1'', ''X'')] 90 10 = Inr ([], [(''X'', ''M1'')], [(''X'', ''1-G'')])"
  by code_simp

lemma singleton_iff_one_occurrence:
  "(l, snp, i) \<in> set (get_singleton_snps lineage (snd (lineage_tables members))) \<longleftrightarrow>
     l = lineage \<and> carriers members snp = [i]"
proof -
  have "carriers members snp = [i] \<Longrightarrow> snp \<in> (\<Union>r \<in> set members. set (ann_snps r))"
    using carriers_Nil_iff [of members snp] by auto
  then show ?thesis
    unfolding in_get_singleton_snps [OF distinct_snp_counter] dd_get_snp_counter keys_snp_counter
    by auto
qed

lemma set_carriers:
  "set (carriers members snp) = rec_id ` {r \<in> set members. snp \<in> set (ann_snps r)}"
  by (auto simp: carriers_def)

text \<open>
  C3 (amended): in every lineage an SNP that is in the SNP lists of two or more members
  is never classified singleton, and every mask row names the lineage and a member whose
  SNP list contains the SNP; in a lineage where no member's SNP list holds the same SNP
  twice, an SNP is classified singleton if and only if it is in the SNP list of exactly
  one member.
\<close>

theorem singleton_iff_single_carrier:
  "(2 \<le> length (filter (\<lambda>r. snp \<in> set (ann_snps r)) members) \<longrightarrow>
      (l, snp, i) \<notin> set (get_singleton_snps lineage (snd (lineage_tables members)))) \<and>
   ((l, snp, i) \<in> set (get_singleton_snps lineage (snd (lineage_tables members))) \<longrightarrow>
      l = lineage \<and> (\<exists>m \<in> set members. rec_id m = i \<and> snp \<in> set (ann_snps m))) \<and>
   ((\<forall>r \<in> set members. distinct (ann_snps r)) \<longrightarrow>
      ((\<exists>j. (lineage, snp, j) \<in> set (get_singleton_snps lineage (snd (lineage_tables members)))) \<longleftrightarrow>
       length (filter (\<lambda>r. snp \<in> set (ann_snps r)) members) = 1))"
proof -
  let ?singles = "get_singleton_snps lineage (snd (lineage_tables members))"
  note A = singleton_iff_one_occurrence
  have B: "(l, snp, i) \<notin> set ?singles"
    if "2 \<le> length (filter (\<lambda>r. snp \<in> set (ann_snps r)) members)"
    using that length_carriers_ge [of snp members] unfolding A by auto
  have D: "l = lineage \<and> (\<exists>m \<in> set members. rec_id m = i \<and> snp \<in> set (ann_snps m))"
    if "(l, snp, i) \<in> set ?singles"
  proof -
    from that have l: "l = lineage" and c: "carriers members snp = [i]" unfolding A by simp_all
    from c have "i \<in> set (carriers members snp)" by simp
    then have "\<exists>m \<in> set members. rec_id m = i \<and> snp \<in> set (ann_snps m)"
      unfolding set_carriers by auto
    with l show ?thesis by simp
  qed
  have C: "(\<exists>j. (lineage, snp, j) \<in> set ?singles) \<longleftrightarrow>
           length (filter (\<lambda>r. snp \<in> set (ann_snps r)) members) = 1"
    if "\<forall>r \<in> set members. distinct (ann_snps r)"
    unfolding A length_carriers_distinct [OF that, symmetric]
    by (auto simp: length_Suc_conv)
  from B C D show ?thesis by blast
qed

theorem singleton_iff_single_carrier_witness:
  "distinct (ann_snps \<lparr>rec_id = ''M1'', rec_seq = ''ACGA'', ann_pcent_N = 0,
                  ann_snps = [''4TA''], ann_snp_string = ''4TA''\<rparr>) \<and>
   distinct (ann_snps \<lparr>rec_id = ''M2'', rec_seq = ''ACGA'', ann_pcent_N = 0,
                  ann_snps = [''4TA''], ann_snp_string = ''4TA''\<rparr>) \<and>
   distinct (ann_snps \<lparr>rec_id = ''M3'', rec_seq = ''ATGT'', ann_pcent_N = 0,
                  ann_snps = [''2CT''], ann_snp_string = ''2CT''\<rparr>) \<and>
   length (filter (\<lambda>r. ''2CT'' \<in> set (ann_snps r))
               [\<lparr>rec_id = ''M1'', rec_seq = ''ACGA'', ann_pcent_N = 0,
                  ann_snps = [''4TA''], ann_snp_string = ''4TA''\<rparr>,
                \<lparr>rec_id = ''M2'', rec_seq = ''ACGA'', ann_pcent_N = 0,
                  ann_snps = [''4TA''], ann_snp_string = ''4TA''\<rparr>,
                \<lparr>rec_id = ''M3'', rec_seq = ''ATGT'', ann_pcent_N = 0,
                  ann_snps = [''2CT''], ann_snp_string = ''2CT''\<rparr>]) = 1 \<and>
   (\<exists>j. (''X'', ''2CT'', j) \<in> set (get_singleton_snps ''X'' (snd (lineage_tables
               [\<lparr>rec_id = ''M1'', rec_seq = ''ACGA'', ann_pcent_N = 0,
                  ann_snps = [''4TA''], ann_snp_string = ''4TA''\<rparr>,
                \<lparr>rec_id = ''M2'', rec_seq = ''ACGA'', ann_pcent_N = 0,
                  ann_snps = [''4TA''], ann_snp_string = ''4TA''\<rparr>,
                \<lparr>rec_id = ''M3'', rec_seq = ''ATGT'', ann_pcent_N = 0,
                  ann_snps = [''2CT''], ann_snp_string = ''2CT''\<rparr>])))) \<and>
   2 \<le> length (filter (\<lambda>r. ''4TA'' \<in> set (ann_snps r))
               [\<lparr>rec_id = ''M1'', rec_seq = ''ACGA'', ann_pcent_N = 0,
                  ann_snps = [''4TA''], ann_snp_string = ''4TA''\<rparr>,
                \<lparr>rec_id = ''M2'', rec_seq = ''ACGA'', ann_pcent_N = 0,
                  ann_snps = [''4TA''], ann_snp_string = ''4TA''\<rparr>,
                \<lparr>rec_id = ''M3'', rec_seq = ''ATGT'', ann_pcent_N = 0,
                  ann_snps = [''2CT''], ann_snp_string = ''2CT''\<rparr>]) \<and>
   (''X'', ''4TA'', ''M1'') \<notin> set (get_singleton_snps ''X'' (snd (lineage_tables
               [\<lparr>rec_id = ''M1'', rec_seq = ''ACGA'', ann_pcent_N = 0,
                  ann_snps = [''4TA''], ann_snp_string = ''4TA''\<rparr>,
                \<lparr>rec_id = ''M2'', rec_seq = ''ACGA'', ann_pcent_N = 0,
                  ann_snps = [''4TA''], ann_snp_string = ''4TA''\<rparr>,
                \<lparr>rec_id = ''M3'', rec_seq = ''ATGT'', ann_pcent_N = 0,
                  ann_snps = [''2CT''], ann_snp_string = ''2CT''\<rparr>])))"
proof -
  let ?ms = "[\<lparr>rec_id = ''M1'', rec_seq = ''ACGA'', ann_pcent_N = 0,
                  ann_snps = [''4TA''], ann_snp_string = ''4TA''\<rparr>,
                \<lparr>rec_id = ''M2'', rec_seq = ''ACGA'', ann_pcent_N = 0,
                  ann_snps = [''4TA''], ann_snp_string = ''4TA''\<rparr>,
                \<lparr>rec_id = ''M3'', rec_seq = ''ATGT'', ann_pcent_N = 0,
                  ann_snps = [''2CT''], ann_snp_string = ''2CT''\<rparr>]"
  have d: "\<forall>r \<in> set ?ms. distinct (ann_snps r)" by simp
  have n: "length (filter (\<lambda>r. ''2CT'' \<in> set (ann_snps r)) ?ms) = 1" by simp
  have two: "2 \<le> length (filter (\<lambda>r. ''4TA'' \<in> set (ann_snps r)) ?ms)" by simp
  from singleton_iff_single_carrier [of "''2CT''" ?ms "''X''" "''M3''" "''X''"] d n
  have one: "\<exists>j. (''X'', ''2CT'', j) \<in> set (get_singleton_snps ''X'' (snd (lineage_tables ?ms)))"
    by blast
  from singleton_iff_single_carrier [of "''4TA''" ?ms "''X''" "''M1''" "''X''"] two
  have none: "(''X'', ''4TA'', ''M1'') \<notin> set (get_singleton_snps ''X'' (snd (lineage_tables ?ms)))"
    by blast
  from n one two none show ?thesis by simp
qed

section \<open>The signature groups and the selection loops\<close>

lemma dd_get_group_fold:
  "dd_get (fold (\<lambda>r l. dd_append (key r) (val r) l) members l) k =
     dd_get l k @ map val (filter (\<lambda>r. key r = k) members)"
  by (induction members arbitrary: l) (auto simp: dd_get_dd_append)

lemma keys_group_fold:
  "fst ` set (fold (\<lambda>r l. dd_append (key r) (val r) l) members l) = fst ` set l \<union> key ` set members"
  by (induction members arbitrary: l) (auto simp: keys_dd_append)

lemma distinct_group_fold:
  "distinct (map fst l) \<Longrightarrow>
   distinct (map fst (fold (\<lambda>r l. dd_append (key r) (val r) l) members l))"
  by (induction members arbitrary: l) (auto simp: distinct_dd_append)

lemma lineage_snps_group:
  assumes "(k, g) \<in> set (fst (lineage_tables members))"
  shows "g = map (\<lambda>r. (rec_id r, ann_pcent_N r)) (filter (\<lambda>r. ann_snp_string r = k) members)"
    and "k \<in> ann_snp_string ` set members"
proof -
  let ?d = "fst (lineage_tables members)"
  have d: "?d = fold (\<lambda>r l. dd_append (ann_snp_string r) (rec_id r, ann_pcent_N r) l) members []"
    by (simp add: lineage_tables_def fst_fold_count_record)
  have dist: "distinct (map fst ?d)"
    unfolding d by (rule distinct_group_fold) simp
  from in_dd_iff [OF dist, of k g] assms
  have k: "k \<in> fst ` set ?d" and g: "dd_get ?d k = g" by simp_all
  from g show "g = map (\<lambda>r. (rec_id r, ann_pcent_N r)) (filter (\<lambda>r. ann_snp_string r = k) members)"
    unfolding d dd_get_group_fold by (simp add: dd_get_Nil)
  from k show "k \<in> ann_snp_string ` set members"
    unfolding d keys_group_fold by simp
qed

lemma lineage_snps_has_group:
  assumes "m \<in> set members"
  shows "(ann_snp_string m,
          map (\<lambda>r. (rec_id r, ann_pcent_N r)) (filter (\<lambda>r. ann_snp_string r = ann_snp_string m) members))
         \<in> set (fst (lineage_tables members))"
proof -
  let ?d = "fst (lineage_tables members)"
  have d: "?d = fold (\<lambda>r l. dd_append (ann_snp_string r) (rec_id r, ann_pcent_N r) l) members []"
    by (simp add: lineage_tables_def fst_fold_count_record)
  have dist: "distinct (map fst ?d)"
    unfolding d by (rule distinct_group_fold) simp
  have k: "ann_snp_string m \<in> fst ` set ?d"
    unfolding d keys_group_fold using assms by simp
  have g: "dd_get ?d (ann_snp_string m) =
             map (\<lambda>r. (rec_id r, ann_pcent_N r)) (filter (\<lambda>r. ann_snp_string r = ann_snp_string m) members)"
    unfolding d dd_get_group_fold by (simp add: dd_get_Nil)
  from in_dd_iff [OF dist] k g show ?thesis by blast
qed

lemma lineage_snps_group_nonempty:
  assumes "(k, g) \<in> set (fst (lineage_tables members))"
  shows "g \<noteq> []"
proof -
  from lineage_snps_group [OF assms] obtain m where "m \<in> set members" "ann_snp_string m = k"
    and g: "g = map (\<lambda>r. (rec_id r, ann_pcent_N r)) (filter (\<lambda>r. ann_snp_string r = k) members)"
    by auto
  then have "filter (\<lambda>r. ann_snp_string r = k) members \<noteq> []"
    by (auto simp: filter_empty_conv)
  with g show ?thesis by simp
qed

lemma lowest_in_group:
  assumes "(k, g) \<in> set (fst (lineage_tables members))"
    and "sort_key f g = lowest # rest"
  shows "\<exists>m \<in> set members. ann_snp_string m = k \<and> lowest = (rec_id m, ann_pcent_N m)"
proof -
  have "lowest \<in> set (sort_key f g)" using assms(2) by simp
  then have "lowest \<in> set g" by simp
  then show ?thesis
    unfolding lineage_snps_group(1) [OF assms(1)] by auto
qed

lemma note_record_closed:
  "note_record snp record (represented, taxa) =
     (represented @ replicate (length (ann_snps record)) snp,
      if ann_snps record = [] then taxa
      else if rec_id record \<in> set (get_ids_in_list_of_records taxa) then taxa
      else taxa @ [record])"
proof -
  have "fold (\<lambda>lowest_N_snp (represented, taxa).
             (represented @ [snp],
              if rec_id record \<notin> set (get_ids_in_list_of_records taxa)
              then taxa @ [record] else taxa)) xs (represented, taxa) =
     (represented @ replicate (length xs) snp,
      if xs = [] then taxa
      else if rec_id record \<in> set (get_ids_in_list_of_records taxa) then taxa
      else taxa @ [record])" for xs
    by (induction xs arbitrary: represented taxa)
       (auto simp: get_ids_in_list_of_records_def replicate_app_Cons_same)
  from this [of "ann_snps record"] show ?thesis unfolding note_record_def .
qed

lemma scan_records_distinct:
  assumes "distinct (map rec_id members)" and "m \<in> set members"
  shows "scan_records snp (rec_id m) members state = note_record snp m state"
proof -
  have "fold (\<lambda>record st. if rec_id record = rec_id m then note_record snp record st else st) ms state =
          (if m \<in> set ms then note_record snp m state else state)"
    if "distinct (map rec_id ms)" and "m \<in> set ms \<or> rec_id m \<notin> rec_id ` set ms" for ms
    using that
  proof (induction ms arbitrary: state)
    case Nil
    then show ?case by simp
  next
    case (Cons a ms)
    show ?case
    proof (cases "a = m")
      case True
      then have "rec_id m \<notin> rec_id ` set ms" using Cons.prems(1) by simp
      then have "m \<notin> set ms" by blast
      with Cons.IH [of "note_record snp m state"] Cons.prems(1) True \<open>rec_id m \<notin> rec_id ` set ms\<close>
      show ?thesis by simp
    next
      case False
      show ?thesis
      proof (cases "m \<in> set ms")
        case True
        then have "rec_id a \<noteq> rec_id m" using Cons.prems(1) by auto
        with Cons.IH [of state] Cons.prems(1) True show ?thesis by simp
      next
        case False
        with \<open>a \<noteq> m\<close> Cons.prems(2) have "rec_id m \<notin> rec_id ` set (a # ms)" by simp
        then have "rec_id a \<noteq> rec_id m" and "rec_id m \<notin> rec_id ` set ms" by auto
        with Cons.IH [of state] Cons.prems(1) False \<open>a \<noteq> m\<close> show ?thesis by simp
      qed
    qed
  qed
  from this [of members] assms show ?thesis by (simp add: scan_records_def)
qed

lemma fold_scan_snp_invariant:
  assumes "P state"
    and "\<And>snp st. snp \<in> set xs \<Longrightarrow> P st \<Longrightarrow> P (scan_snp lowest_N members flagged snp st)"
  shows "P (fold (scan_snp lowest_N members flagged) xs state)"
  using assms by (induction xs arbitrary: state) auto

lemma taxa_loop_invariant:
  assumes "\<forall>(k, g) \<in> set groups. g \<noteq> []"
    and "P state"
    and "\<And>k g lowest rest snp st.
           (k, g) \<in> set groups \<Longrightarrow> sort_key (\<lambda>x. py_int_of_float (snd x)) g = lowest # rest \<Longrightarrow>
           snp \<in> set (py_split (CHR '';'') k) \<Longrightarrow> P st \<Longrightarrow>
           P (scan_snp (fst lowest) members flagged snp st)"
  shows "\<exists>st'. taxa_loop groups members flagged state = Inr st' \<and> P st'"
  using assms
proof (induction groups arbitrary: state)
  case Nil
  then show ?case by simp
next
  case (Cons a groups)
  obtain k g where a: "a = (k, g)" by (cases a)
  have "g \<noteq> []" using Cons.prems(1) a by simp
  then have "sort_key (\<lambda>x. py_int_of_float (snd x)) g \<noteq> []"
    by (metis length_sort length_0_conv)
  then obtain lowest rest where s: "sort_key (\<lambda>x. py_int_of_float (snd x)) g = lowest # rest"
    by (cases "sort_key (\<lambda>x. py_int_of_float (snd x)) g") auto
  let ?st = "fold (scan_snp (fst lowest) members flagged) (py_split (CHR '';'') k) state"
  have P: "P ?st"
  proof (rule fold_scan_snp_invariant [where P = P and state = state, OF Cons.prems(2)])
    fix snp st
    assume "snp \<in> set (py_split (CHR '';'') k)" and "P st"
    with Cons.prems(3) [of k g lowest rest snp st] a s
    show "P (scan_snp (fst lowest) members flagged snp st)" by simp
  qed
  have rest: "\<forall>(k, g) \<in> set groups. g \<noteq> []" using Cons.prems(1) by simp
  have "\<exists>st'. taxa_loop groups members flagged ?st = Inr st' \<and> P st'"
  proof (rule Cons.IH [OF rest P])
    fix k' g' lowest' rest' snp st
    assume "(k', g') \<in> set groups"
      and "sort_key (\<lambda>x. py_int_of_float (snd x)) g' = lowest' # rest'"
      and "snp \<in> set (py_split (CHR '';'') k')" and "P st"
    with Cons.prems(3) [of k' g' lowest' rest' snp st]
    show "P (scan_snp (fst lowest') members flagged snp st)" by simp
  qed
  then show ?case by (simp add: a s)
qed


section \<open>Size and identifiers of the representative list\<close>

lemma note_record_distinct:
  assumes "distinct (map rec_id (snd state))"
  shows "distinct (map rec_id (snd (note_record snp record state)))"
proof -
  obtain represented taxa where st: "state = (represented, taxa)" by (cases state)
  show ?thesis
    using assms unfolding st note_record_closed
    by (auto simp: get_ids_in_list_of_records_def)
qed

lemma scan_records_distinct_taxa:
  assumes "distinct (map rec_id (snd state))"
  shows "distinct (map rec_id (snd (scan_records snp lowest_N members state)))"
  using assms unfolding scan_records_def
  by (induction members arbitrary: state) (auto simp: note_record_distinct)

lemma scan_snp_distinct_taxa:
  assumes "distinct (map rec_id (snd state))"
  shows "distinct (map rec_id (snd (scan_snp lowest_N members flagged snp state)))"
  using assms scan_records_distinct_taxa [of "(fst state @ [snp], snd state)"]
  by (simp add: scan_snp_def)

lemma get_representative_taxa_distinct:
  "\<exists>taxa. get_representative_taxa (fst (lineage_tables members)) members flagged = Inr taxa \<and>
          distinct (map rec_id taxa)"
proof -
  have ne: "\<forall>(k, g) \<in> set (fst (lineage_tables members)). g \<noteq> []"
    using lineage_snps_group_nonempty by blast
  have "\<exists>st'. taxa_loop (fst (lineage_tables members)) members flagged ([], []) = Inr st' \<and>
              distinct (map rec_id (snd st'))"
    by (rule taxa_loop_invariant [where P = "\<lambda>st. distinct (map rec_id (snd st))", OF ne])
       (simp_all add: scan_snp_distinct_taxa)
  then show ?thesis by (auto simp: get_representative_taxa_def)
qed

lemma pad_fold_properties:
  assumes "distinct (map rec_id taxa)"
  shows "distinct (map rec_id (fold pad_step members taxa)) \<and>
         (3 \<le> length (fold pad_step members taxa) \<or>
          rec_id ` set members \<union> rec_id ` set taxa \<subseteq> rec_id ` set (fold pad_step members taxa)) \<and>
         length taxa \<le> length (fold pad_step members taxa)"
  using assms
proof (induction members arbitrary: taxa)
  case Nil
  then show ?case by simp
next
  case (Cons a members)
  let ?t = "pad_step a taxa"
  let ?r = "fold pad_step members ?t"
  have d: "distinct (map rec_id ?t)"
    using Cons.prems by (simp add: pad_step_def get_ids_in_list_of_records_def)
  have len: "length taxa \<le> length ?t" by (simp add: pad_step_def)
  have ids: "3 \<le> length ?t \<or> insert (rec_id a) (rec_id ` set taxa) \<subseteq> rec_id ` set ?t"
    by (auto simp: pad_step_def get_ids_in_list_of_records_def)
  from Cons.IH [OF d] have d': "distinct (map rec_id ?r)"
    and ids': "3 \<le> length ?r \<or> rec_id ` set members \<union> rec_id ` set ?t \<subseteq> rec_id ` set ?r"
    and len': "length ?t \<le> length ?r" by simp_all
  have "3 \<le> length ?r \<or>
        rec_id ` set (a # members) \<union> rec_id ` set taxa \<subseteq> rec_id ` set ?r"
  proof (cases "3 \<le> length ?r")
    case True
    then show ?thesis by simp
  next
    case False
    with len' have "\<not> 3 \<le> length ?t" by simp
    with ids have A: "insert (rec_id a) (rec_id ` set taxa) \<subseteq> rec_id ` set ?t" by simp
    from False ids' have B: "rec_id ` set members \<union> rec_id ` set ?t \<subseteq> rec_id ` set ?r"
      by simp
    from B have B1: "rec_id ` set members \<subseteq> rec_id ` set ?r"
      and B2: "rec_id ` set ?t \<subseteq> rec_id ` set ?r" by simp_all
    from A B2 have "insert (rec_id a) (rec_id ` set taxa) \<subseteq> rec_id ` set ?r"
      by (rule subset_trans)
    with B1 show ?thesis by simp
  qed
  moreover have "length taxa \<le> length ?r" using len len' by simp
  ultimately show ?case using d' by simp
qed

lemma pad_taxa_to_5_distinct:
  "distinct (map rec_id taxa) \<Longrightarrow> distinct (map rec_id (pad_taxa_to_5 taxa members))"
  using pad_fold_properties [of taxa members] by (simp add: pad_taxa_to_5_def)

lemma pad_taxa_to_5_length:
  assumes "distinct (map rec_id taxa)" and "distinct (map rec_id members)"
  shows "min 3 (length members) \<le> length (pad_taxa_to_5 taxa members)"
proof (cases "3 \<le> length (pad_taxa_to_5 taxa members)")
  case True
  then show ?thesis by simp
next
  case False
  then have short: "length taxa < 3" by (auto simp: pad_taxa_to_5_def split: if_splits)
  with False pad_fold_properties [OF assms(1), of members]
  have sub: "rec_id ` set members \<subseteq> rec_id ` set (pad_taxa_to_5 taxa members)"
    by (auto simp: pad_taxa_to_5_def)
  have "length members = card (rec_id ` set members)"
    using assms(2) by (metis distinct_card length_map set_map)
  also have "\<dots> \<le> card (rec_id ` set (pad_taxa_to_5 taxa members))"
    by (rule card_mono [OF _ sub]) simp
  also have "\<dots> \<le> length (pad_taxa_to_5 taxa members)"
    by (metis card_length length_map set_map)
  finally show ?thesis by simp
qed

text \<open>
  C5: for a lineage whose members have distinct identifiers, \<open>get_representative_taxa\<close>
  returns, and the list left by \<open>pad_taxa_to_5\<close> has at least
  \<open>min 3 (number of members)\<close> entries and no identifier twice.
\<close>

theorem representatives_enough_and_distinct:
  assumes "distinct (map rec_id members)"
  shows "\<exists>taxa. get_representative_taxa (fst (lineage_tables members)) members flagged = Inr taxa \<and>
           min 3 (length members) \<le> length (pad_taxa_to_5 taxa members) \<and>
           distinct (map rec_id (pad_taxa_to_5 taxa members))"
proof -
  from get_representative_taxa_distinct [of members flagged] obtain taxa
    where t: "get_representative_taxa (fst (lineage_tables members)) members flagged = Inr taxa"
      and d: "distinct (map rec_id taxa)" by blast
  from pad_taxa_to_5_length [OF d assms] pad_taxa_to_5_distinct [OF d] t
  show ?thesis by blast
qed

theorem representatives_enough_and_distinct_witness:
  "distinct (map rec_id
     [\<lparr>rec_id = ''M1'', rec_seq = ''ACGA'', ann_pcent_N = 0,
       ann_snps = [''4TA''], ann_snp_string = ''4TA''\<rparr>,
      \<lparr>rec_id = ''M2'', rec_seq = ''ACGA'', ann_pcent_N = 0,
       ann_snps = [''4TA''], ann_snp_string = ''4TA''\<rparr>]) \<and>
   (\<exists>taxa. get_representative_taxa (fst (lineage_tables
       [\<lparr>rec_id = ''M1'', rec_seq = ''ACGA'', ann_pcent_N = 0,
         ann_snps = [''4TA''], ann_snp_string = ''4TA''\<rparr>,
        \<lparr>rec_id = ''M2'', rec_seq = ''ACGA'', ann_pcent_N = 0,
         ann_snps = [''4TA''], ann_snp_string = ''4TA''\<rparr>]))
       [\<lparr>rec_id = ''M1'', rec_seq = ''ACGA'', ann_pcent_N = 0,
         ann_snps = [''4TA''], ann_snp_string = ''4TA''\<rparr>,
        \<lparr>rec_id = ''M2'', rec_seq = ''ACGA'', ann_pcent_N = 0,
         ann_snps = [''4TA''], ann_snp_string = ''4TA''\<rparr>] [''4TA''] = Inr taxa \<and>
      2 \<le> length (pad_taxa_to_5 taxa
       [\<lparr>rec_id = ''M1'', rec_seq = ''ACGA'', ann_pcent_N = 0,
         ann_snps = [''4TA''], ann_snp_string = ''4TA''\<rparr>,
        \<lparr>rec_id = ''M2'', rec_seq = ''ACGA'', ann_pcent_N = 0,
         ann_snps = [''4TA''], ann_snp_string = ''4TA''\<rparr>]) \<and>
      distinct (map rec_id (pad_taxa_to_5 taxa
       [\<lparr>rec_id = ''M1'', rec_seq = ''ACGA'', ann_pcent_N = 0,
         ann_snps = [''4TA''], ann_snp_string = ''4TA''\<rparr>,
        \<lparr>rec_id = ''M2'', rec_seq = ''ACGA'', ann_pcent_N = 0,
         ann_snps = [''4TA''], ann_snp_string = ''4TA''\<rparr>])))"
proof -
  let ?ms = "[\<lparr>rec_id = ''M1'', rec_seq = ''ACGA'', ann_pcent_N = 0,
               ann_snps = [''4TA''], ann_snp_string = ''4TA''\<rparr>,
              \<lparr>rec_id = ''M2'', rec_seq = ''ACGA'', ann_pcent_N = 0,
               ann_snps = [''4TA''], ann_snp_string = ''4TA''\<rparr>]"
  have d: "distinct (map rec_id ?ms)" by simp
  from representatives_enough_and_distinct [OF d, of "[''4TA'']"]
  obtain taxa
    where t: "get_representative_taxa (fst (lineage_tables ?ms)) ?ms [''4TA''] = Inr taxa"
      and l: "min 3 (length ?ms) \<le> length (pad_taxa_to_5 taxa ?ms)"
      and dd: "distinct (map rec_id (pad_taxa_to_5 taxa ?ms))"
    by blast
  from l have "2 \<le> length (pad_taxa_to_5 taxa ?ms)" by simp
  with d t dd show ?thesis by blast
qed


section \<open>SNP strings of annotated records\<close>

lemma py_upper_semicolon: "py_upper r = CHR '';'' \<longleftrightarrow> r = CHR '';''"
proof
  assume "py_upper r = CHR '';''"
  then have "(of_char (py_upper r) :: nat) = of_char (CHR '';'')" by simp
  then have "(of_char r :: nat) = 59"
    by (simp add: of_char_py_upper split: if_splits)
  then have "(of_char r :: nat) = of_char (CHR '';'')" by simp
  then show "r = CHR '';''" by (simp only: of_char_eq_iff)
next
  assume "r = CHR '';''"
  then show "py_upper r = CHR '';''" by (simp add: py_upper_def)
qed

lemma str_nat_digits: "c \<in> set (str_nat n) \<Longrightarrow> \<exists>d < 10. c = digit_char d"
proof (induction n rule: str_nat.induct)
  case (1 n)
  show ?case
  proof (cases "n < 10")
    case True
    with "1.prems" show ?thesis by (subst (asm) str_nat.simps) auto
  next
    case False
    with "1.prems" have "c \<in> set (str_nat (n div 10)) \<or> c = digit_char (n mod 10)"
      by (subst (asm) str_nat.simps) auto
    then show ?thesis
    proof
      assume "c \<in> set (str_nat (n div 10))"
      with "1.IH" False show ?thesis by simp
    next
      assume "c = digit_char (n mod 10)"
      moreover have "n mod 10 < 10" by simp
      ultimately show ?thesis by blast
    qed
  qed
qed

lemma semicolon_not_in_str_nat: "CHR '';'' \<notin> set (str_nat n)"
proof
  assume "CHR '';'' \<in> set (str_nat n)"
  then obtain d where "d < 10" and "CHR '';'' = digit_char d"
    using str_nat_digits by blast
  then have "digit_val (CHR '';'') = Some d" by (simp add: digit_val_digit_char)
  moreover have "digit_val (CHR '';'') = None" by code_simp
  ultimately show False by simp
qed

lemma base_not_semicolon:
  assumes "py_lower m \<in> set ''agtc-''"
  shows "py_upper m \<noteq> CHR '';''"
proof -
  have "py_lower (CHR '';'') \<notin> set ''agtc-''" by code_simp
  with assms have "m \<noteq> CHR '';''" by auto
  then show ?thesis by (simp add: py_upper_semicolon)
qed

lemma snp_name_well_formed:
  assumes "r \<noteq> CHR '';''" and "py_lower m \<in> set ''agtc-''"
  shows "snp_name i r m \<noteq> [] \<and> CHR '';'' \<notin> set (snp_name i r m)"
proof -
  have 1: "py_upper r \<noteq> CHR '';''" using assms(1) by (simp add: py_upper_semicolon)
  have 2: "py_upper m \<noteq> CHR '';''" using assms(2) by (rule base_not_semicolon)
  have 3: "CHR '';'' \<notin> set (str_nat i)" by (rule semicolon_not_in_str_nat)
  from 1 2 3 show ?thesis unfolding snp_name_def by auto
qed

lemma find_snps_loop_well_formed:
  "CHR '';'' \<notin> set ref \<Longrightarrow> \<forall>x \<in> set snps. x \<noteq> [] \<and> CHR '';'' \<notin> set x \<Longrightarrow>
   find_snps_loop ref member index snps = Inr out \<Longrightarrow>
   \<forall>x \<in> set out. x \<noteq> [] \<and> CHR '';'' \<notin> set x"
proof (induction ref member index snps rule: find_snps_loop.induct)
  case (1 member index snps)
  then show ?case by simp
next
  case (2 r ref index snps)
  then show ?case by simp
next
  case (3 r ref m member index snps)
  let ?index' = "if r \<noteq> CHR ''-'' then index + 1 else index"
  let ?snps' = "if r \<noteq> m
                   then (if py_lower m \<notin> set ''agtc-'' then snps
                         else snps @ [snp_name ?index' r m])
                   else snps"
  have r: "r \<noteq> CHR '';''" and ref: "CHR '';'' \<notin> set ref"
    using "3.prems"(1) by auto
  have inv: "\<forall>x \<in> set ?snps'. x \<noteq> [] \<and> CHR '';'' \<notin> set x"
  proof (cases "r \<noteq> m \<and> py_lower m \<in> set ''agtc-''")
    case True
    then have "?snps' = snps @ [snp_name ?index' r m]" by simp
    moreover have "snp_name ?index' r m \<noteq> [] \<and> CHR '';'' \<notin> set (snp_name ?index' r m)"
      using snp_name_well_formed [OF r, of m] True by blast
    ultimately show ?thesis using "3.prems"(2) by auto
  next
    case False
    then have "?snps' = snps" by auto
    then show ?thesis using "3.prems"(2) by simp
  qed
  have run: "find_snps_loop ref member ?index' ?snps' = Inr out"
    using "3.prems"(3) by (simp add: Let_def)
  from "3.IH" [OF refl refl ref inv run] show ?case .
qed

lemma py_split_no_sep: "sep \<notin> set x \<Longrightarrow> py_split sep x = [x]"
  by (induction x) auto

lemma py_split_append_sep:
  "sep \<notin> set x \<Longrightarrow> py_split sep (x @ sep # rest) = x # py_split sep rest"
  by (induction x) auto

lemma py_split_join:
  "ys \<noteq> [] \<Longrightarrow> \<forall>y \<in> set ys. sep \<notin> set y \<Longrightarrow> py_split sep (py_join [sep] ys) = ys"
proof (induction "[sep]" ys rule: py_join.induct)
  case 1
  then show ?case by simp
next
  case (2 x)
  then show ?case by (simp add: py_split_no_sep)
next
  case (3 x y ys)
  then show ?case by (simp add: py_split_append_sep)
qed

lemma annotated_split:
  assumes "CHR '';'' \<notin> set ref" and "snps_annotated ref r"
  shows "set (py_split (CHR '';'') (ann_snp_string r)) =
           (if ann_snps r = [] then {[]} else set (ann_snps r))"
    and "\<forall>x \<in> set (ann_snps r). x \<noteq> []"
proof -
  have f: "find_snps_loop ref (rec_seq r) 0 [] = Inr (ann_snps r)"
    using assms(2) by (simp add: snps_annotated_def find_snps_def)
  from find_snps_loop_well_formed [OF assms(1) _ f]
  have wf: "\<forall>x \<in> set (ann_snps r). x \<noteq> [] \<and> CHR '';'' \<notin> set x" by simp
  then show "\<forall>x \<in> set (ann_snps r). x \<noteq> []" by simp
  let ?sorted = "sort_key (\<lambda>x. the (snp_position x)) (ann_snps r)"
  have str: "ann_snp_string r = py_join '';'' ?sorted"
    using assms(2) by (auto simp: snps_annotated_def snp_list_to_snp_string_def split: if_splits)
  show "set (py_split (CHR '';'') (ann_snp_string r)) =
           (if ann_snps r = [] then {[]} else set (ann_snps r))"
  proof (cases "ann_snps r = []")
    case True
    then show ?thesis by (simp add: str)
  next
    case False
    then have "?sorted \<noteq> []" by (metis length_sort length_0_conv)
    moreover have "\<forall>y \<in> set ?sorted. CHR '';'' \<notin> set y" using wf by simp
    ultimately have "py_split (CHR '';'') (py_join '';'' ?sorted) = ?sorted"
      by (rule py_split_join)
    with False show ?thesis by (simp add: str)
  qed
qed


section \<open>Which member represents a signature group\<close>

lemma scan_snp_closed:
  assumes "distinct (map rec_id members)" and "m \<in> set members"
  shows "scan_snp (rec_id m) members flagged snp (represented, taxa) =
     (if snp \<in> set flagged \<and> snp \<notin> set represented
      then (represented @ [snp] @ replicate (length (ann_snps m)) snp,
            if ann_snps m = [] then taxa
            else if rec_id m \<in> rec_id ` set taxa then taxa
            else taxa @ [m])
      else (represented, taxa))"
  by (simp add: scan_snp_def scan_records_distinct [OF assms] note_record_closed
      get_ids_in_list_of_records_def)

lemma py_int_of_float_mono: "a \<le> b \<Longrightarrow> py_int_of_float a \<le> py_int_of_float b"
proof -
  assume ab: "a \<le> b"
  show ?thesis
  proof (cases "0 \<le> a")
    case True
    with ab show ?thesis by (simp add: py_int_of_float_def floor_mono)
  next
    case False
    show ?thesis
    proof (cases "0 \<le> b")
      case True
      have "\<lceil>a\<rceil> \<le> 0" using False by (simp add: ceiling_le_zero)
      moreover have "0 \<le> \<lfloor>b\<rfloor>" using True by simp
      ultimately have "\<lceil>a\<rceil> \<le> \<lfloor>b\<rfloor>" by linarith
      then show ?thesis using False True by (simp add: py_int_of_float_def)
    next
      case False
      with ab \<open>\<not> 0 \<le> a\<close> show ?thesis by (simp add: py_int_of_float_def ceiling_mono)
    qed
  qed
qed

lemma sorted_groups_keys:
  assumes "sorted (map snd g)"
  shows "sorted (map (\<lambda>x. py_int_of_float (snd x)) g)"
  using assms
  by (induction g) (auto simp: py_int_of_float_mono)

lemma smallest_N_sorted:
  assumes "sorted (map snd g)" and "g = x # xs"
  shows "smallest_N g = Some x"
  using assms
proof (induction xs arbitrary: g x)
  case Nil
  then show ?case by simp
next
  case (Cons y ys)
  have "smallest_N (y # ys) = Some y"
    using Cons.IH [of "y # ys" y] Cons.prems by simp
  moreover have "snd x \<le> snd y" using Cons.prems by simp
  ultimately show ?case using Cons.prems(2) by simp
qed

lemma group_sorted:
  assumes "sorted (map ann_pcent_N members)"
    and "(k, g) \<in> set (fst (lineage_tables members))"
  shows "sorted (map snd g)"
proof -
  have "map snd g = map ann_pcent_N (filter (\<lambda>r. ann_snp_string r = k) members)"
    unfolding lineage_snps_group(1) [OF assms(2)] by (simp add: comp_def)
  with sorted_filter [OF assms(1)] show ?thesis by simp
qed

lemma lowest_is_smallest:
  assumes "sorted (map ann_pcent_N members)"
    and "(k, g) \<in> set (fst (lineage_tables members))"
    and "sort_key (\<lambda>x. py_int_of_float (snd x)) g = lowest # rest"
  shows "smallest_N g = Some lowest"
proof -
  have s: "sorted (map snd g)" using group_sorted [OF assms(1,2)] .
  have "sort_key (\<lambda>x. py_int_of_float (snd x)) g = g"
    by (rule sort_key_id_if_sorted [OF sorted_groups_keys [OF s]])
  with assms(3) have "g = lowest # rest" by simp
  with s show ?thesis by (rule smallest_N_sorted)
qed

lemma get_lineage_dict_sorted:
  assumes "(lineage, members) \<in> set (get_lineage_dict alignment lineage_file)"
  shows "sorted (map ann_pcent_N members)"
proof -
  from assms obtain records where "members = sort_key ann_pcent_N records"
    by (auto simp: get_lineage_dict_def Let_def)
  then show ?thesis by simp
qed

text \<open>
  The selector ranks a signature group by \<open>int\<close> of the N content. Where the members
  are already in the order of their N content, the stable sort leaves every group as it
  is, and the record taken from a group is its member with the smallest N content.
\<close>

lemma sorted_members_representatives:
  assumes "distinct (map rec_id members)" and "sorted (map ann_pcent_N members)"
  shows "\<exists>taxa. get_representative_taxa (fst (lineage_tables members)) members flagged = Inr taxa \<and>
           (\<forall>t \<in> set taxa. t \<in> set members \<and>
              (\<exists>g. (ann_snp_string t, g) \<in> set (fst (lineage_tables members)) \<and>
                   smallest_N g = Some (rec_id t, ann_pcent_N t)))"
proof -
  let ?groups = "fst (lineage_tables members)"
  let ?Q = "\<lambda>t. t \<in> set members \<and>
              (\<exists>g. (ann_snp_string t, g) \<in> set ?groups \<and>
                   smallest_N g = Some (rec_id t, ann_pcent_N t))"
  let ?P = "\<lambda>st :: string list \<times> seq_record list. \<forall>t \<in> set (snd st). ?Q t"
  have ne: "\<forall>(k, g) \<in> set ?groups. g \<noteq> []"
    using lineage_snps_group_nonempty by blast
  have "\<exists>st'. taxa_loop ?groups members flagged ([], []) = Inr st' \<and> ?P st'"
  proof (rule taxa_loop_invariant [where P = ?P, OF ne])
    show "?P ([], [])" by simp
  next
    fix k g lowest rest snp and st :: "string list \<times> seq_record list"
    assume kg: "(k, g) \<in> set ?groups"
      and s: "sort_key (\<lambda>x. py_int_of_float (snd x)) g = lowest # rest"
      and P: "?P st"
    from lowest_in_group [OF kg s] obtain m
      where m: "m \<in> set members" and mk: "ann_snp_string m = k"
        and low: "lowest = (rec_id m, ann_pcent_N m)" by blast
    have "smallest_N g = Some (rec_id m, ann_pcent_N m)"
      using lowest_is_smallest [OF assms(2) kg s] low by simp
    with m mk kg have Qm: "?Q m" by blast
    obtain represented taxa where st: "st = (represented, taxa)" by (cases st)
    have sub: "set (snd (scan_snp (rec_id m) members flagged snp (represented, taxa)))
            \<subseteq> insert m (set taxa)"
      unfolding scan_snp_closed [OF assms(1) m] by auto
    show "?P (scan_snp (fst lowest) members flagged snp st)"
      unfolding low st fst_conv
    proof
      fix t
      assume "t \<in> set (snd (scan_snp (rec_id m) members flagged snp (represented, taxa)))"
      with sub have "t = m \<or> t \<in> set taxa" by auto
      with P Qm st show "?Q t" by auto
    qed
  qed
  then show ?thesis by (auto simp: get_representative_taxa_def)
qed

section \<open>Coverage of the flagged SNPs\<close>

lemma fst_note_record: "set (fst state) \<subseteq> set (fst (note_record snp record state))"
proof -
  obtain represented taxa where st: "state = (represented, taxa)" by (cases state)
  show ?thesis unfolding st note_record_closed by simp
qed

lemma fst_scan_records: "set (fst state) \<subseteq> set (fst (scan_records snp lowest_N members state))"
  unfolding scan_records_def
proof (induction members arbitrary: state)
  case Nil
  then show ?case by simp
next
  case (Cons a members)
  let ?st = "if rec_id a = lowest_N then note_record snp a state else state"
  have 1: "set (fst state) \<subseteq> set (fst ?st)" using fst_note_record [of state snp a] by simp
  have 2: "set (fst ?st) \<subseteq> set (fst (fold (\<lambda>record st.
              if rec_id record = lowest_N then note_record snp record st else st) members ?st))"
    by (rule Cons)
  from 1 2 have "set (fst state) \<subseteq> set (fst (fold (\<lambda>record st.
              if rec_id record = lowest_N then note_record snp record st else st) members ?st))"
    by (rule subset_trans)
  then show ?case by simp
qed

lemma fst_scan_snp: "set (fst state) \<subseteq> set (fst (scan_snp lowest_N members flagged snp state))"
  using fst_scan_records [of "(fst state @ [snp], snd state)" snp lowest_N members]
  by (auto simp: scan_snp_def)

lemma scan_snp_represents:
  assumes "snp \<in> set flagged"
  shows "snp \<in> set (fst (scan_snp lowest_N members flagged snp state))"
  using fst_scan_records [of "(fst state @ [snp], snd state)" snp lowest_N members] assms
  by (auto simp: scan_snp_def)

lemma fst_fold_scan_snp:
  "set (fst state) \<subseteq> set (fst (fold (scan_snp lowest_N members flagged) xs state))"
proof (induction xs arbitrary: state)
  case Nil
  then show ?case by simp
next
  case (Cons a xs)
  from fst_scan_snp [of state lowest_N members flagged a]
    Cons [of "scan_snp lowest_N members flagged a state"]
  have "set (fst state)
          \<subseteq> set (fst (fold (scan_snp lowest_N members flagged) xs
                          (scan_snp lowest_N members flagged a state)))"
    by (rule subset_trans)
  then show ?case by simp
qed

lemma fold_scan_snp_represents:
  assumes "snp \<in> set xs" and "snp \<in> set flagged"
  shows "snp \<in> set (fst (fold (scan_snp lowest_N members flagged) xs state))"
  using assms(1)
proof (induction xs arbitrary: state)
  case Nil
  then show ?case by simp
next
  case (Cons a xs)
  show ?case
  proof (cases "snp = a")
    case True
    have "snp \<in> set (fst (scan_snp lowest_N members flagged a state))"
      unfolding True [symmetric] using assms(2) by (rule scan_snp_represents)
    with fst_fold_scan_snp [of "scan_snp lowest_N members flagged a state" lowest_N members flagged xs]
    show ?thesis by auto
  next
    case False
    with Cons.prems have "snp \<in> set xs" by simp
    from Cons.IH [OF this] show ?thesis by simp
  qed
qed

lemma fst_taxa_loop:
  "taxa_loop groups members flagged state = Inr st' \<Longrightarrow> set (fst state) \<subseteq> set (fst st')"
proof (induction groups arbitrary: state)
  case Nil
  then show ?case by simp
next
  case (Cons a groups)
  obtain k g where a: "a = (k, g)" by (cases a)
  from Cons.prems obtain lowest rest
    where s: "sort_key (\<lambda>x. py_int_of_float (snd x)) g = lowest # rest"
    by (cases "sort_key (\<lambda>x. py_int_of_float (snd x)) g") (auto simp: a)
  let ?st = "fold (scan_snp (fst lowest) members flagged) (py_split (CHR '';'') k) state"
  have "taxa_loop groups members flagged ?st = Inr st'"
    using Cons.prems by (simp add: a s)
  from Cons.IH [OF this] fst_fold_scan_snp [of state "fst lowest" members flagged "py_split (CHR '';'') k"]
  show ?case by (rule_tac subset_trans)
qed

lemma taxa_loop_represents:
  assumes "taxa_loop groups members flagged state = Inr st'"
    and "(k, g) \<in> set groups" and "snp \<in> set (py_split (CHR '';'') k)" and "snp \<in> set flagged"
  shows "snp \<in> set (fst st')"
  using assms(1,2)
proof (induction groups arbitrary: state)
  case Nil
  then show ?case by simp
next
  case (Cons a groups)
  obtain k' g' where a: "a = (k', g')" by (cases a)
  from Cons.prems(1) obtain lowest rest
    where s: "sort_key (\<lambda>x. py_int_of_float (snd x)) g' = lowest # rest"
    by (cases "sort_key (\<lambda>x. py_int_of_float (snd x)) g'") (auto simp: a)
  let ?st = "fold (scan_snp (fst lowest) members flagged) (py_split (CHR '';'') k') state"
  have run: "taxa_loop groups members flagged ?st = Inr st'"
    using Cons.prems(1) by (simp add: a s)
  show ?case
  proof (cases "(k, g) = a")
    case True
    then have "k' = k" using a by simp
    then have "snp \<in> set (fst ?st)"
      using fold_scan_snp_represents [OF assms(3,4)] by simp
    with fst_taxa_loop [OF run] show ?thesis by auto
  next
    case False
    with Cons.prems(2) have "(k, g) \<in> set groups" by simp
    from Cons.IH [OF run this] show ?thesis .
  qed
qed

text \<open>
  C1: take a lineage whose members have distinct identifiers and carry the annotations
  that \<open>add_snps_annotation\<close> computes against a reference without the character \<open>;\<close>.
  Then \<open>get_representative_taxa\<close> returns, and for every flagged SNP that is in the SNP
  list of some member, the list it returns (before padding) holds a record whose own SNP
  list contains that SNP.
\<close>

theorem flagged_snps_are_represented:
  assumes "CHR '';'' \<notin> set ref"
    and "\<forall>r \<in> set members. snps_annotated ref r"
    and "distinct (map rec_id members)"
  shows "\<exists>taxa. get_representative_taxa (fst (lineage_tables members)) members flagged = Inr taxa \<and>
           (\<forall>snp \<in> set flagged. (\<exists>m \<in> set members. snp \<in> set (ann_snps m)) \<longrightarrow>
              (\<exists>t \<in> set taxa. snp \<in> set (ann_snps t)))"
proof -
  let ?groups = "fst (lineage_tables members)"
  let ?P = "\<lambda>st :: string list \<times> seq_record list.
              set (snd st) \<subseteq> set members \<and>
              (\<forall>s \<in> set (fst st). s \<noteq> [] \<longrightarrow> (\<exists>t \<in> set (snd st). s \<in> set (ann_snps t)))"
  have ne: "\<forall>(k, g) \<in> set ?groups. g \<noteq> []"
    using lineage_snps_group_nonempty by blast
  have inj: "inj_on rec_id (set members)"
    using assms(3) by (simp add: distinct_map)
  have "\<exists>st'. taxa_loop ?groups members flagged ([], []) = Inr st' \<and> ?P st'"
  proof (rule taxa_loop_invariant [where P = ?P, OF ne])
    show "?P ([], [])" by simp
  next
    fix k g lowest rest snp and st :: "string list \<times> seq_record list"
    assume kg: "(k, g) \<in> set ?groups"
      and s: "sort_key (\<lambda>x. py_int_of_float (snd x)) g = lowest # rest"
      and snp: "snp \<in> set (py_split (CHR '';'') k)"
      and P: "?P st"
    from lowest_in_group [OF kg s] obtain m
      where m: "m \<in> set members" and mk: "ann_snp_string m = k"
        and low: "lowest = (rec_id m, ann_pcent_N m)" by blast
    obtain represented taxa where st: "st = (represented, taxa)" by (cases st)
    from P st have sub: "set taxa \<subseteq> set members"
      and cov: "\<forall>s \<in> set represented. s \<noteq> [] \<longrightarrow> (\<exists>t \<in> set taxa. s \<in> set (ann_snps t))"
      by simp_all
    have ann: "snps_annotated ref m" using assms(2) m by blast
    have split: "set (py_split (CHR '';'') k) = (if ann_snps m = [] then {[]} else set (ann_snps m))"
      using annotated_split(1) [OF assms(1) ann] mk by simp
    show "?P (scan_snp (fst lowest) members flagged snp st)"
    proof (cases "snp \<in> set flagged \<and> snp \<notin> set represented")
      case False
      then have "scan_snp (fst lowest) members flagged snp st = st"
        unfolding low st fst_conv scan_snp_closed [OF assms(3) m] by simp
      with P show ?thesis by simp
    next
      case True
      let ?taxa' = "if ann_snps m = [] then taxa
                    else if rec_id m \<in> rec_id ` set taxa then taxa else taxa @ [m]"
      have eq: "scan_snp (fst lowest) members flagged snp st =
                  (represented @ [snp] @ replicate (length (ann_snps m)) snp, ?taxa')"
        unfolding low st fst_conv scan_snp_closed [OF assms(3) m] using True by simp
      have sub': "set ?taxa' \<subseteq> set members" using sub m by auto
      have old: "set taxa \<subseteq> set ?taxa'" by auto
      have new: "\<exists>t \<in> set ?taxa'. snp \<in> set (ann_snps t)" if "snp \<noteq> []"
      proof -
        from snp split that have ne: "ann_snps m \<noteq> []" and in_m: "snp \<in> set (ann_snps m)"
          by (auto split: if_splits)
        have "m \<in> set ?taxa'"
        proof (cases "rec_id m \<in> rec_id ` set taxa")
          case True
          then obtain t where t: "t \<in> set taxa" and "rec_id t = rec_id m" by auto
          with sub m inj have "t = m" by (auto dest: inj_onD)
          with t ne show ?thesis by simp
        next
          case False
          with ne show ?thesis by simp
        qed
        with in_m show ?thesis by blast
      qed
      have cov': "\<forall>s \<in> set (represented @ [snp] @ replicate (length (ann_snps m)) snp).
                    s \<noteq> [] \<longrightarrow> (\<exists>t \<in> set ?taxa'. s \<in> set (ann_snps t))"
      proof (intro ballI impI)
        fix s
        assume "s \<in> set (represented @ [snp] @ replicate (length (ann_snps m)) snp)"
          and s_ne: "s \<noteq> []"
        then have "s \<in> set represented \<or> s = snp" by auto
        then show "\<exists>t \<in> set ?taxa'. s \<in> set (ann_snps t)"
        proof
          assume "s \<in> set represented"
          with cov s_ne obtain t where "t \<in> set taxa" "s \<in> set (ann_snps t)" by blast
          with old show ?thesis by blast
        next
          assume "s = snp"
          with new s_ne show ?thesis by simp
        qed
      qed
      from sub' cov' show ?thesis unfolding eq by simp
    qed
  qed
  then obtain st' where run: "taxa_loop ?groups members flagged ([], []) = Inr st'"
    and sub: "set (snd st') \<subseteq> set members"
    and cov: "\<forall>s \<in> set (fst st'). s \<noteq> [] \<longrightarrow> (\<exists>t \<in> set (snd st'). s \<in> set (ann_snps t))"
    by blast
  have "\<exists>t \<in> set (snd st'). snp \<in> set (ann_snps t)"
    if fl: "snp \<in> set flagged" and m: "m \<in> set members" and in_m: "snp \<in> set (ann_snps m)"
    for snp m
  proof -
    have ann: "snps_annotated ref m" using assms(2) m by blast
    from in_m have ne: "ann_snps m \<noteq> []" by auto
    have "snp \<in> set (py_split (CHR '';'') (ann_snp_string m))"
      using annotated_split(1) [OF assms(1) ann] ne in_m by simp
    from taxa_loop_represents [OF run lineage_snps_has_group [OF m] this fl]
    have "snp \<in> set (fst st')" .
    moreover have "snp \<noteq> []" using annotated_split(2) [OF assms(1) ann] in_m by blast
    ultimately show ?thesis using cov by blast
  qed
  with run show ?thesis by (auto simp: get_representative_taxa_def)
qed

theorem flagged_snps_are_represented_witness:
  "CHR '';'' \<notin> set ''ACGT'' \<and>
   snps_annotated ''ACGT''
     \<lparr>rec_id = ''M1'', rec_seq = ''ACGA'', ann_pcent_N = 0,
      ann_snps = [''4TA''], ann_snp_string = ''4TA''\<rparr> \<and>
   snps_annotated ''ACGT''
     \<lparr>rec_id = ''M2'', rec_seq = ''ATGA'', ann_pcent_N = 0,
      ann_snps = [''2CT'', ''4TA''], ann_snp_string = ''2CT;4TA''\<rparr> \<and>
   distinct (map rec_id
               [\<lparr>rec_id = ''M1'', rec_seq = ''ACGA'', ann_pcent_N = 0,
                  ann_snps = [''4TA''], ann_snp_string = ''4TA''\<rparr>,
                \<lparr>rec_id = ''M2'', rec_seq = ''ATGA'', ann_pcent_N = 0,
                  ann_snps = [''2CT'', ''4TA''], ann_snp_string = ''2CT;4TA''\<rparr>]) \<and>
   (\<exists>taxa. get_representative_taxa (fst (lineage_tables
               [\<lparr>rec_id = ''M1'', rec_seq = ''ACGA'', ann_pcent_N = 0,
                  ann_snps = [''4TA''], ann_snp_string = ''4TA''\<rparr>,
                \<lparr>rec_id = ''M2'', rec_seq = ''ATGA'', ann_pcent_N = 0,
                  ann_snps = [''2CT'', ''4TA''], ann_snp_string = ''2CT;4TA''\<rparr>]))
               [\<lparr>rec_id = ''M1'', rec_seq = ''ACGA'', ann_pcent_N = 0,
                  ann_snps = [''4TA''], ann_snp_string = ''4TA''\<rparr>,
                \<lparr>rec_id = ''M2'', rec_seq = ''ATGA'', ann_pcent_N = 0,
                  ann_snps = [''2CT'', ''4TA''], ann_snp_string = ''2CT;4TA''\<rparr>]
               [''4TA''] = Inr taxa \<and>
            (\<exists>t \<in> set taxa. ''4TA'' \<in> set (ann_snps t)))"
proof -
  let ?m1 = "\<lparr>rec_id = ''M1'', rec_seq = ''ACGA'', ann_pcent_N = 0,
              ann_snps = [''4TA''], ann_snp_string = ''4TA''\<rparr>"
  let ?m2 = "\<lparr>rec_id = ''M2'', rec_seq = ''ATGA'', ann_pcent_N = 0,
              ann_snps = [''2CT'', ''4TA''], ann_snp_string = ''2CT;4TA''\<rparr>"
  have r: "CHR '';'' \<notin> set ''ACGT''" by simp
  have a1: "snps_annotated ''ACGT'' ?m1" by code_simp
  have a2: "snps_annotated ''ACGT'' ?m2" by code_simp
  from a1 a2 have a: "\<forall>r \<in> set [?m1, ?m2]. snps_annotated ''ACGT'' r" by simp
  have d: "distinct (map rec_id [?m1, ?m2])" by simp
  from flagged_snps_are_represented [OF r a d, of "[''4TA'']"]
  obtain taxa
    where t: "get_representative_taxa (fst (lineage_tables [?m1, ?m2])) [?m1, ?m2] [''4TA'']
                = Inr taxa"
      and c: "\<forall>snp \<in> set [''4TA'']. (\<exists>m \<in> set [?m1, ?m2]. snp \<in> set (ann_snps m)) \<longrightarrow>
                (\<exists>t \<in> set taxa. snp \<in> set (ann_snps t))"
    by blast
  from c have "\<exists>t \<in> set taxa. ''4TA'' \<in> set (ann_snps t)" by simp
  with r a1 a2 d t show ?thesis by blast
qed


section \<open>The defining SNPs of a lineage\<close>

lemma signature_intersection_set:
  assumes "signatures \<noteq> []"
  shows "\<exists>common. signature_intersection signatures = Inr common \<and>
           set common = (\<Inter>k \<in> set signatures. set (py_split (CHR '';'') k))"
proof -
  obtain x xs where s: "signatures = x # xs" using assms by (cases signatures) auto
  show ?thesis
    unfolding s signature_intersection_def
    by (auto simp: list_all_iff)
qed

lemma keys_lineage_snps:
  "set (map fst (fst (lineage_tables members))) = ann_snp_string ` set members"
proof -
  have "fst ` set (fst (lineage_tables members)) = ann_snp_string ` set members"
    unfolding lineage_tables_def fst_fold_count_record keys_group_fold by simp
  then show ?thesis by simp
qed

lemma get_representative_taxa_returns:
  "\<exists>taxa. get_representative_taxa (fst (lineage_tables members)) members flagged = Inr taxa"
  using get_representative_taxa_distinct [of members flagged] by blast

lemma annotated_positions:
  assumes "snps_annotated ref r" and "x \<in> set (ann_snps r)"
  shows "snp_position x \<noteq> None"
  using assms
  by (auto simp: snps_annotated_def snp_list_to_snp_string_def list_all_iff split: if_splits)

lemma snp_list_to_snp_string_returns:
  assumes "\<forall>x \<in> set ds. snp_position x \<noteq> None"
  shows "\<exists>str. snp_list_to_snp_string ds = Inr str"
  using assms by (simp add: snp_list_to_snp_string_def list_all_iff)

text \<open>
  Where at least one member of an annotated lineage has an SNP, processing the lineage
  returns, and the SNPs of the defining row are the SNPs common to the SNP lists of all
  members when there is one, and the list \<open>defining\<close> of the classification otherwise.
\<close>

lemma defining_row_of_lineage:
  assumes "CHR '';'' \<notin> set ref"
    and "\<forall>r \<in> set members. snps_annotated ref r"
    and "m \<in> set members" and "ann_snps m \<noteq> []"
  shows "\<exists>singletons rows lineage_str defining flagged ds.
           process_lineage lineage members defining_cut_off represent_cut_off
             = Inr (singletons, rows, (lineage, lineage_str)) \<and>
           get_represented_and_defining_snps
             (get_singleton_snps lineage (snd (lineage_tables members)))
             (snd (lineage_tables members)) members defining_cut_off represent_cut_off
             = Inr (defining, flagged) \<and>
           snp_list_to_snp_string ds = Inr lineage_str \<and>
           set ds = (if (\<Inter>r \<in> set members. set (ann_snps r)) \<noteq> {}
                     then (\<Inter>r \<in> set members. set (ann_snps r)) else set defining)"
proof -
  let ?groups = "fst (lineage_tables members)"
  let ?counter = "snd (lineage_tables members)"
  let ?singles = "get_singleton_snps lineage ?counter"
  let ?I = "\<Inter>r \<in> set members. set (ann_snps r)"
  let ?S = "\<lambda>r. if ann_snps r = [] then {[]} else set (ann_snps r)"
  have n: "0 < length members" using assms(3) by (cases members) auto
  define defining where "defining =
    filter (\<lambda>snp. \<not> list_ex (\<lambda>s. snp = fst (snd s)) ?singles \<and>
                  of_nat (100 * length (dd_get ?counter snp)) / of_nat (length members)
                    > defining_cut_off) (map fst ?counter)"
  define flagged where "flagged =
    filter (\<lambda>snp. \<not> list_ex (\<lambda>s. snp = fst (snd s)) ?singles \<and>
                  of_nat (100 * length (dd_get ?counter snp)) / of_nat (length members)
                    > represent_cut_off) (map fst ?counter)"
  have cls: "get_represented_and_defining_snps ?singles ?counter members
               defining_cut_off represent_cut_off = Inr (defining, flagged)"
    unfolding get_represented_and_defining_snps_def classify_loop_total [OF n]
      defining_def flagged_def by simp
  have dsub: "set defining \<subseteq> (\<Union>r \<in> set members. set (ann_snps r))"
    unfolding defining_def using keys_snp_counter [of members] by auto
  obtain taxa where taxa: "get_representative_taxa ?groups members flagged = Inr taxa"
    using get_representative_taxa_returns by blast
  have "set (map fst ?groups) \<noteq> {}"
    unfolding keys_lineage_snps using assms(3) by auto
  then have "map fst ?groups \<noteq> []" by auto
  from signature_intersection_set [OF this] obtain common
    where com: "signature_intersection (map fst ?groups) = Inr common"
      and cset: "set common = (\<Inter>k \<in> set (map fst ?groups). set (py_split (CHR '';'') k))"
    by blast
  have S: "set (py_split (CHR '';'') (ann_snp_string r)) = ?S r" if "r \<in> set members" for r
    using annotated_split(1) [OF assms(1)] assms(2) that by blast
  have cset': "set common = (\<Inter>r \<in> set members. ?S r)"
    unfolding cset keys_lineage_snps using S by (simp add: INF_image comp_def)
  have no_empty: "[] \<notin> set (ann_snps m)"
    using annotated_split(2) [OF assms(1)] assms(2,3) by blast
  have cI: "set common = ?I"
  proof (cases "\<exists>r \<in> set members. ann_snps r = []")
    case True
    then obtain r0 where r0: "r0 \<in> set members" and e: "ann_snps r0 = []" by blast
    have "?I \<subseteq> set (ann_snps r0)" using r0 by blast
    then have I: "?I = {}" using e by simp
    have "set common \<subseteq> ?S r0 \<inter> ?S m" unfolding cset' using r0 assms(3) by blast
    also have "\<dots> = {}" using e assms(4) no_empty by simp
    finally show ?thesis using I by simp
  next
    case False
    then have "(\<Inter>r \<in> set members. ?S r) = ?I" by simp
    then show ?thesis unfolding cset' .
  qed
  let ?ds = "if common = [] then defining else common"
  have pos: "\<forall>x \<in> set ?ds. snp_position x \<noteq> None"
  proof
    fix x assume x: "x \<in> set ?ds"
    have "\<exists>r \<in> set members. x \<in> set (ann_snps r)"
    proof (cases "common = []")
      case True
      with x dsub show ?thesis by auto
    next
      case False
      with x cI assms(3) show ?thesis by auto
    qed
    then obtain r where "r \<in> set members" and "x \<in> set (ann_snps r)" by blast
    with assms(2) annotated_positions show "snp_position x \<noteq> None" by blast
  qed
  from snp_list_to_snp_string_returns [OF pos] obtain str
    where str: "snp_list_to_snp_string ?ds = Inr str" by blast
  have run: "process_lineage lineage members defining_cut_off represent_cut_off
               = Inr (?singles, map (\<lambda>record. (lineage, rec_id record)) (pad_taxa_to_5 taxa members),
                      (lineage, str))"
    unfolding process_lineage_def using str by (simp add: cls taxa com Let_def)
  have "set ?ds = (if ?I \<noteq> {} then ?I else set defining)"
    using cI by auto
  with run cls str show ?thesis by blast
qed

text \<open>
  C2: the defining SNPs of a lineage are the intersection of its members' SNP sets when
  that is not empty, and the cut-off based \<open>defining\<close> list otherwise. That is what
  \<open>defining_row_of_lineage\<close> shows for a lineage in which some member has an SNP. On a
  lineage whose members all equal the reference (up to ambiguity codes) the intersection
  and the \<open>defining\<close> list are both empty, so the claim asks for an empty defining row;
  the script raises instead. Here the whole run is evaluated on the reference \<open>ACGT\<close>
  with members \<open>ACGT\<close> and \<open>ACNT\<close> of lineage \<open>X\<close>.
\<close>

theorem identical_lineage_run_raises:
  "find_snps ''ACGT'' ''ACGT'' = Inr [] \<and> find_snps ''ACGT'' ''ACNT'' = Inr [] \<and>
   get_all_snps
     [read_record reference_id ''ACGT'', read_record ''M1'' ''ACGT'', read_record ''M2'' ''ACNT'']
     [(''M1'', ''X''), (''M2'', ''X'')] 90 10 = Inl ValueError"
  by code_simp


section \<open>What the run hands to each lineage\<close>

text \<open>
  The statements about one lineage assume members with distinct identifiers, in the order
  of their N content, annotated against the reference. This is what \<open>get_all_snps\<close>
  passes on when the identifiers of the alignment are distinct.
\<close>

lemma add_snps_annotation_annotated:
  "add_snps_annotation alignment reference = Inr annotated \<Longrightarrow>
   (\<forall>r \<in> set annotated. snps_annotated (rec_seq reference) r) \<and>
   map rec_id annotated = map rec_id alignment"
proof (induction alignment arbitrary: annotated)
  case Nil
  then show ?case by simp
next
  case (Cons a alignment)
  from Cons.prems obtain snps snp_string rest
    where f: "find_snps (rec_seq reference) (rec_seq a) = Inr snps"
      and s: "snp_list_to_snp_string snps = Inr snp_string"
      and r: "add_snps_annotation alignment reference = Inr rest"
      and a: "annotated = a\<lparr>ann_snps := snps, ann_snp_string := snp_string\<rparr> # rest"
    by (auto split: sum.splits)
  have "snps_annotated (rec_seq reference) (a\<lparr>ann_snps := snps, ann_snp_string := snp_string\<rparr>)"
    using f s by (simp add: snps_annotated_def)
  with Cons.IH [OF r] a show ?case by simp
qed

lemma fold_conditional:
  "fold (\<lambda>x d. if C x then F x d else d) xs d = fold F (filter C xs) d"
  by (induction xs arbitrary: d) auto

lemma get_lineage_dict_members:
  assumes "(lineage, members) \<in> set (get_lineage_dict alignment lineage_file)"
  shows "members = sort_key ann_pcent_N
           (filter (\<lambda>r. rec_id r \<noteq> reference_id \<and>
                         read_lineage_file lineage_file (rec_id r) = Some lineage) alignment)"
proof -
  let ?dict = "read_lineage_file lineage_file"
  let ?C = "\<lambda>r. rec_id r \<noteq> reference_id \<and> ?dict (rec_id r) \<noteq> None"
  let ?records = "fold (\<lambda>record d.
                    if rec_id record \<noteq> reference_id
                    then (case ?dict (rec_id record) of
                            Some lineage \<Rightarrow> dd_append lineage record d
                          | None \<Rightarrow> d)
                    else d) alignment []"
  have eq: "(\<lambda>record d.
                    if rec_id record \<noteq> reference_id
                    then (case ?dict (rec_id record) of
                            Some lineage \<Rightarrow> dd_append lineage record d
                          | None \<Rightarrow> d)
                    else d) =
        (\<lambda>record d. if ?C record then dd_append (the (?dict (rec_id record))) record d else d)"
    by (auto simp: fun_eq_iff split: option.splits)
  have "?records =
      fold (\<lambda>record d. if ?C record then dd_append (the (?dict (rec_id record))) record d else d)
        alignment []"
    by (simp only: eq)
  also have "\<dots> = fold (\<lambda>r d. dd_append (the (?dict (rec_id r))) r d) (filter ?C alignment) []"
    by (rule fold_conditional)
  finally have rec: "?records =
      fold (\<lambda>r d. dd_append (the (?dict (rec_id r))) r d) (filter ?C alignment) []" .
  from assms obtain records where in_r: "(lineage, records) \<in> set ?records"
    and m: "members = sort_key ann_pcent_N records"
    by (auto simp: get_lineage_dict_def Let_def)
  have dist: "distinct (map fst ?records)"
    unfolding rec by (rule distinct_group_fold) simp
  from in_dd_iff [OF dist, of lineage records] in_r
  have "dd_get ?records lineage = records" by simp
  then have "records = filter (\<lambda>r. the (?dict (rec_id r)) = lineage) (filter ?C alignment)"
    unfolding rec dd_get_group_fold by (simp add: dd_get_Nil)
  also have "\<dots> = filter (\<lambda>r. rec_id r \<noteq> reference_id \<and> ?dict (rec_id r) = Some lineage) alignment"
    by (auto intro: filter_cong)
  finally show ?thesis using m by simp
qed

lemma lineage_members_ready:
  assumes "add_snps_annotation alignment reference = Inr annotated"
    and "distinct (map rec_id alignment)"
    and "(lineage, members) \<in> set (get_lineage_dict annotated lineage_file)"
  shows "distinct (map rec_id members)"
    and "sorted (map ann_pcent_N members)"
    and "\<forall>r \<in> set members. snps_annotated (rec_seq reference) r"
proof -
  let ?recs = "filter (\<lambda>r. rec_id r \<noteq> reference_id \<and>
                         read_lineage_file lineage_file (rec_id r) = Some lineage) annotated"
  have m: "members = sort_key ann_pcent_N ?recs"
    using get_lineage_dict_members [OF assms(3)] .
  have ann: "\<forall>r \<in> set annotated. snps_annotated (rec_seq reference) r"
    and ids: "map rec_id annotated = map rec_id alignment"
    using add_snps_annotation_annotated [OF assms(1)] by simp_all
  have "distinct (map rec_id annotated)" using assms(2) ids by simp
  then have "distinct (map rec_id ?recs)" by (rule distinct_map_filter)
  then show "distinct (map rec_id members)" unfolding m by (simp add: distinct_map)
  show "sorted (map ann_pcent_N members)" unfolding m by simp
  show "\<forall>r \<in> set members. snps_annotated (rec_seq reference) r"
    unfolding m using ann by simp
qed


section \<open>The representatives of a lineage of the run\<close>

text \<open>
  On its own the ranking by \<open>int(x[1])\<close> does not find the smallest N content: it
  cannot tell 0.9 from 0.1. For two members with the same SNPs given in the order
  \<open>M1\<close> (0.9), \<open>M2\<close> (0.1) the selector takes \<open>M1\<close>.
\<close>

lemma ranking_truncates_N_content:
  "get_representative_taxa
     (fst (lineage_tables
        [\<lparr>rec_id = ''M1'', rec_seq = ''ACGA'', ann_pcent_N = 9 / 10,
          ann_snps = [''4TA''], ann_snp_string = ''4TA''\<rparr>,
         \<lparr>rec_id = ''M2'', rec_seq = ''ACGA'', ann_pcent_N = 1 / 10,
          ann_snps = [''4TA''], ann_snp_string = ''4TA''\<rparr>]))
     [\<lparr>rec_id = ''M1'', rec_seq = ''ACGA'', ann_pcent_N = 9 / 10,
       ann_snps = [''4TA''], ann_snp_string = ''4TA''\<rparr>,
      \<lparr>rec_id = ''M2'', rec_seq = ''ACGA'', ann_pcent_N = 1 / 10,
       ann_snps = [''4TA''], ann_snp_string = ''4TA''\<rparr>]
     [''4TA'']
   = Inr [\<lparr>rec_id = ''M1'', rec_seq = ''ACGA'', ann_pcent_N = 9 / 10,
           ann_snps = [''4TA''], ann_snp_string = ''4TA''\<rparr>] \<and>
   smallest_N [(''M1'', 9 / 10), (''M2'', 1 / 10)] = Some (''M2'', 1 / 10)"
  by code_simp

lemma get_lineage_dict_distinct:
  assumes "distinct (map rec_id alignment)"
    and "(lineage, members) \<in> set (get_lineage_dict alignment lineage_file)"
  shows "distinct (map rec_id members)"
proof -
  let ?recs = "filter (\<lambda>r. rec_id r \<noteq> reference_id \<and>
                         read_lineage_file lineage_file (rec_id r) = Some lineage) alignment"
  have m: "members = sort_key ann_pcent_N ?recs"
    using get_lineage_dict_members [OF assms(2)] .
  have "distinct (map rec_id ?recs)" using assms(1) by (rule distinct_map_filter)
  then show ?thesis unfolding m by (simp add: distinct_map)
qed

text \<open>
  C6: the members of a lineage reach the selector as \<open>get_lineage_dict\<close> returns them.
  For every lineage that \<open>get_lineage_dict\<close> builds from an alignment with distinct
  identifiers, \<open>get_representative_taxa\<close> returns, and every record it returns is the
  member of its signature group with the smallest N content, the earliest such member of
  the group where several have it.
\<close>

theorem lineage_representatives_have_smallest_N:
  assumes "distinct (map rec_id alignment)"
    and "(lineage, members) \<in> set (get_lineage_dict alignment lineage_file)"
  shows "\<exists>taxa. get_representative_taxa (fst (lineage_tables members)) members flagged = Inr taxa \<and>
           (\<forall>t \<in> set taxa. t \<in> set members \<and>
              (\<exists>g. (ann_snp_string t, g) \<in> set (fst (lineage_tables members)) \<and>
                   smallest_N g = Some (rec_id t, ann_pcent_N t)))"
proof -
  have d: "distinct (map rec_id members)"
    using get_lineage_dict_distinct [OF assms] .
  have s: "sorted (map ann_pcent_N members)"
    using get_lineage_dict_sorted [OF assms(2)] .
  from sorted_members_representatives [OF d s] show ?thesis .
qed

theorem lineage_representatives_have_smallest_N_witness:
  "distinct (map rec_id
     [\<lparr>rec_id = ''M1'', rec_seq = ''ACGA'', ann_pcent_N = 9 / 10,
       ann_snps = [''4TA''], ann_snp_string = ''4TA''\<rparr>,
      \<lparr>rec_id = ''M2'', rec_seq = ''ACGA'', ann_pcent_N = 1 / 10,
       ann_snps = [''4TA''], ann_snp_string = ''4TA''\<rparr>]) \<and>
   (''X'',
     [\<lparr>rec_id = ''M2'', rec_seq = ''ACGA'', ann_pcent_N = 1 / 10,
       ann_snps = [''4TA''], ann_snp_string = ''4TA''\<rparr>,
      \<lparr>rec_id = ''M1'', rec_seq = ''ACGA'', ann_pcent_N = 9 / 10,
       ann_snps = [''4TA''], ann_snp_string = ''4TA''\<rparr>])
     \<in> set (get_lineage_dict
         [\<lparr>rec_id = ''M1'', rec_seq = ''ACGA'', ann_pcent_N = 9 / 10,
           ann_snps = [''4TA''], ann_snp_string = ''4TA''\<rparr>,
          \<lparr>rec_id = ''M2'', rec_seq = ''ACGA'', ann_pcent_N = 1 / 10,
           ann_snps = [''4TA''], ann_snp_string = ''4TA''\<rparr>]
         [(''M1'', ''X''), (''M2'', ''X'')]) \<and>
   get_representative_taxa
     (fst (lineage_tables
        [\<lparr>rec_id = ''M2'', rec_seq = ''ACGA'', ann_pcent_N = 1 / 10,
          ann_snps = [''4TA''], ann_snp_string = ''4TA''\<rparr>,
         \<lparr>rec_id = ''M1'', rec_seq = ''ACGA'', ann_pcent_N = 9 / 10,
          ann_snps = [''4TA''], ann_snp_string = ''4TA''\<rparr>]))
     [\<lparr>rec_id = ''M2'', rec_seq = ''ACGA'', ann_pcent_N = 1 / 10,
       ann_snps = [''4TA''], ann_snp_string = ''4TA''\<rparr>,
      \<lparr>rec_id = ''M1'', rec_seq = ''ACGA'', ann_pcent_N = 9 / 10,
       ann_snps = [''4TA''], ann_snp_string = ''4TA''\<rparr>]
     [''4TA'']
   = Inr [\<lparr>rec_id = ''M2'', rec_seq = ''ACGA'', ann_pcent_N = 1 / 10,
           ann_snps = [''4TA''], ann_snp_string = ''4TA''\<rparr>] \<and>
   (\<exists>g. (''4TA'', g) \<in> set (fst (lineage_tables
        [\<lparr>rec_id = ''M2'', rec_seq = ''ACGA'', ann_pcent_N = 1 / 10,
          ann_snps = [''4TA''], ann_snp_string = ''4TA''\<rparr>,
         \<lparr>rec_id = ''M1'', rec_seq = ''ACGA'', ann_pcent_N = 9 / 10,
          ann_snps = [''4TA''], ann_snp_string = ''4TA''\<rparr>])) \<and>
        smallest_N g = Some (''M2'', 1 / 10))"
proof -
  let ?m1 = "\<lparr>rec_id = ''M1'', rec_seq = ''ACGA'', ann_pcent_N = 9 / 10,
              ann_snps = [''4TA''], ann_snp_string = ''4TA''\<rparr>"
  let ?m2 = "\<lparr>rec_id = ''M2'', rec_seq = ''ACGA'', ann_pcent_N = 1 / 10,
              ann_snps = [''4TA''], ann_snp_string = ''4TA''\<rparr>"
  have d: "distinct (map rec_id [?m1, ?m2])" by simp
  have l: "(''X'', [?m2, ?m1])
             \<in> set (get_lineage_dict [?m1, ?m2] [(''M1'', ''X''), (''M2'', ''X'')])"
    by code_simp
  have r: "get_representative_taxa (fst (lineage_tables [?m2, ?m1])) [?m2, ?m1] [''4TA'']
             = Inr [?m2]"
    by code_simp
  from lineage_representatives_have_smallest_N [OF d l, of "[''4TA'']"] r
  have "\<exists>g. (ann_snp_string ?m2, g) \<in> set (fst (lineage_tables [?m2, ?m1])) \<and>
            smallest_N g = Some (rec_id ?m2, ann_pcent_N ?m2)"
    by simp
  then have "\<exists>g. (''4TA'', g) \<in> set (fst (lineage_tables [?m2, ?m1])) \<and>
                 smallest_N g = Some (''M2'', 1 / 10)"
    by simp
  with d l r show ?thesis by blast
qed

end
